theory Spec2Isabelle
  imports Complex_Main "HOL-Library.Signed_Division" "HOL-Library.Sublist" "HOL-Library.Multiset"
begin

section \<open>Errors\<close>

text \<open>
  Every \<^verbatim>\<open>throw\<close> and every \<^verbatim>\<open>process.exit(1)\<close> of \<^verbatim>\<open>sssreconstruct.js\<close> is a value of
  this type. The constructors carry the specification's names where it has one:
  \<^item> \<open>InvalidFraction\<close>: \<^verbatim>\<open>new Error("Fraction denominator 0")\<close>;
  \<^item> \<open>DivisionByZero\<close>: \<^verbatim>\<open>new Error("Division by zero fraction")\<close>;
  \<^item> \<open>InvalidThreshold\<close>: the two exits of \<^verbatim>\<open>main\<close> on \<^verbatim>\<open>k < 2\<close> and \<^verbatim>\<open>k > shares.length\<close>;
  \<^item> \<open>ReconstructionFailed\<close>: the exit of \<^verbatim>\<open>main\<close> on \<^verbatim>\<open>!best.subset\<close>;
  \<^item> \<open>InvalidJSON\<close>: \<^verbatim>\<open>new Error("Invalid JSON: missing keys.n or keys.k")\<close>;
  \<^item> \<open>InvalidEntry\<close>: \<^verbatim>\<open>new Error(`Invalid entry for key ${k}`)\<close>;
  \<^item> \<open>UnsupportedBase\<close>: \<^verbatim>\<open>new Error(`Unsupported base ${base}`)\<close>, and the RangeError of
    \<^verbatim>\<open>BigInt(base)\<close> on a base that is not a finite number;
  \<^item> \<open>UnsupportedDigit\<close>: \<^verbatim>\<open>new Error(`Unsupported digit '${ch}'`)\<close>;
  \<^item> \<open>InvalidDigit\<close>: \<^verbatim>\<open>new Error(`Digit '${rawCh}' invalid for base ${base}`)\<close>.
  The specification's \<open>DegenerateSubset\<close> has no constructor: on a subset with a repeated \<open>x\<close>
  the interpolation of the code throws the error of \<^verbatim>\<open>div\<close>, \<open>DivisionByZero\<close>.
\<close>

datatype error =
    InvalidFraction
  | DivisionByZero
  | InvalidThreshold
  | ReconstructionFailed
  | InvalidJSON
  | InvalidEntry
  | UnsupportedBase
  | UnsupportedDigit
  | InvalidDigit

section \<open>BigInt gcd and Fraction\<close>

text \<open>
  JavaScript's BigInt is an unbounded integer: \<^typ>\<open>int\<close>. Its \<^verbatim>\<open>/\<close> truncates towards
  zero and its \<^verbatim>\<open>%\<close> takes the sign of the dividend: \<open>sdiv\<close> and \<open>smod\<close>.
\<close>

definition bigAbs :: "int \<Rightarrow> int" where
  "bigAbs a = (if a \<ge> 0 then a else - a)"

function bigGcd_loop :: "int \<Rightarrow> int \<Rightarrow> int" where
  "bigGcd_loop a b = (if b \<noteq> 0 then bigGcd_loop b (a smod b) else a)"
  by pat_completeness auto
termination
proof (relation "measure (\<lambda>(a, b). nat \<bar>b\<bar>)")
  show "wf (measure (\<lambda>(a, b). nat \<bar>b\<bar>))"
    by simp
next
  fix a b :: int
  assume "b \<noteq> 0"
  then have "\<bar>a\<bar> mod \<bar>b\<bar> < \<bar>b\<bar>"
    by simp
  moreover have "0 \<le> \<bar>a\<bar> mod \<bar>b\<bar>"
    using \<open>b \<noteq> 0\<close> by simp
  then have "\<bar>a smod b\<bar> = \<bar>a\<bar> mod \<bar>b\<bar>"
    by (cases "a = 0") (simp_all add: signed_modulo_int_def abs_mult)
  ultimately show "((b, a smod b), (a, b)) \<in> measure (\<lambda>(a, b). nat \<bar>b\<bar>)"
    by simp
qed

declare bigGcd_loop.simps [simp del]

definition bigGcd :: "int \<Rightarrow> int \<Rightarrow> int" where
  "bigGcd a b = bigGcd_loop (bigAbs a) (bigAbs b)"

text \<open>
  The class \<^verbatim>\<open>Fraction\<close> with its fields \<^verbatim>\<open>n\<close> and \<^verbatim>\<open>d\<close> (here \<open>frac_n\<close> and
  \<open>frac_d\<close>). The constructor throws on a zero denominator, so it returns a sum.
  Its divisor \<open>g\<close> is never zero, because \<open>d\<close> is not.
\<close>

record Fraction =
  frac_n :: int
  frac_d :: int

definition Fraction_new :: "int \<Rightarrow> int \<Rightarrow> error + Fraction" where
  "Fraction_new n0 d0 =
     (if d0 = 0 then Inl InvalidFraction
      else
        let n1 = (if d0 < 0 then - n0 else n0);
            d1 = (if d0 < 0 then - d0 else d0);
            g = bigGcd n1 d1
        in Inr \<lparr>frac_n = n1 sdiv g, frac_d = d1 sdiv g\<rparr>)"

definition Fraction_fromBigInt :: "int \<Rightarrow> error + Fraction" where
  "Fraction_fromBigInt v = Fraction_new v 1"

definition Fraction_add :: "Fraction \<Rightarrow> Fraction \<Rightarrow> error + Fraction" where
  "Fraction_add t o' =
     Fraction_new (frac_n t * frac_d o' + frac_n o' * frac_d t) (frac_d t * frac_d o')"

definition Fraction_sub :: "Fraction \<Rightarrow> Fraction \<Rightarrow> error + Fraction" where
  "Fraction_sub t o' =
     Fraction_new (frac_n t * frac_d o' - frac_n o' * frac_d t) (frac_d t * frac_d o')"

definition Fraction_mul :: "Fraction \<Rightarrow> Fraction \<Rightarrow> error + Fraction" where
  "Fraction_mul t o' = Fraction_new (frac_n t * frac_n o') (frac_d t * frac_d o')"

definition Fraction_div :: "Fraction \<Rightarrow> Fraction \<Rightarrow> error + Fraction" where
  "Fraction_div t o' =
     (if frac_n o' = 0 then Inl DivisionByZero
      else Fraction_new (frac_n t * frac_d o') (frac_d t * frac_n o'))"

definition Fraction_eq :: "Fraction \<Rightarrow> Fraction \<Rightarrow> bool" where
  "Fraction_eq t o' \<longleftrightarrow> frac_n t = frac_n o' \<and> frac_d t = frac_d o'"

definition Fraction_isInteger :: "Fraction \<Rightarrow> bool" where
  "Fraction_isInteger t \<longleftrightarrow> frac_d t = 1"

text \<open>The canonical form of the specification: lowest terms, positive denominator.\<close>

definition canonical :: "Fraction \<Rightarrow> bool" where
  "canonical f \<longleftrightarrow> gcd \<bar>frac_n f\<bar> (frac_d f) = 1 \<and> frac_d f > 0"

text \<open>The rational number a fraction stands for, and the canonical fraction of a rational.\<close>

definition rat_of :: "Fraction \<Rightarrow> rat" where
  "rat_of f = Fract (frac_n f) (frac_d f)"

definition frac_of :: "rat \<Rightarrow> Fraction" where
  "frac_of r = \<lparr>frac_n = fst (quotient_of r), frac_d = snd (quotient_of r)\<rparr>"

section \<open>Shares\<close>

text \<open>
  The objects that \<^verbatim>\<open>parseInput\<close> pushes: \<^verbatim>\<open>{ x, y, base, raw, label }\<close>, with \<^verbatim>\<open>x\<close> and
  \<^verbatim>\<open>y\<close> BigInts. The base is the number that \<^verbatim>\<open>parseInt\<close> returned; a share is built only
  when it is a number from 2 to 36.
\<close>

record share =
  share_x :: int
  share_y :: int
  share_base :: int
  share_raw :: string
  share_label :: string

section \<open>Lagrange interpolation\<close>

text \<open>
  \<^verbatim>\<open>lagrangeAtZero\<close> and \<^verbatim>\<open>lagrangeEval\<close>: the loop over \<^verbatim>\<open>j\<close> multiplies the numerator
  and the denominator of the basis polynomial, the loop over \<^verbatim>\<open>i\<close> adds the terms. Every
  operation of \<^verbatim>\<open>Fraction\<close> may throw, and the first error ends both of them.
\<close>

function lagrangeAtZero_inner ::
  "share list \<Rightarrow> nat \<Rightarrow> nat \<Rightarrow> Fraction \<Rightarrow> Fraction \<Rightarrow> error + (Fraction \<times> Fraction)" where
  "lagrangeAtZero_inner points i j num den =
     (if j < length points then
        if i = j then lagrangeAtZero_inner points i (j + 1) num den
        else
          let xi = share_x (points ! i); xj = share_x (points ! j) in
          case Fraction_new (- xj) 1 of Inl e \<Rightarrow> Inl e | Inr a \<Rightarrow>
          case Fraction_mul num a of Inl e \<Rightarrow> Inl e | Inr num' \<Rightarrow>
          case Fraction_new (xi - xj) 1 of Inl e \<Rightarrow> Inl e | Inr b \<Rightarrow>
          case Fraction_mul den b of Inl e \<Rightarrow> Inl e | Inr den' \<Rightarrow>
          lagrangeAtZero_inner points i (j + 1) num' den'
      else Inr (num, den))"
  by pat_completeness auto
termination
  by (relation "measure (\<lambda>(points, i, j, num, den). length points - j)") auto

declare lagrangeAtZero_inner.simps [simp del]

function lagrangeAtZero_outer :: "share list \<Rightarrow> nat \<Rightarrow> Fraction \<Rightarrow> error + Fraction" where
  "lagrangeAtZero_outer points i acc =
     (if i < length points then
        let yi = share_y (points ! i) in
        case Fraction_new 1 1 of Inl e \<Rightarrow> Inl e | Inr num1 \<Rightarrow>
        case Fraction_new 1 1 of Inl e \<Rightarrow> Inl e | Inr den1 \<Rightarrow>
        case lagrangeAtZero_inner points i 0 num1 den1 of Inl e \<Rightarrow> Inl e | Inr (num, den) \<Rightarrow>
        case Fraction_div num den of Inl e \<Rightarrow> Inl e | Inr Li0 \<Rightarrow>
        case Fraction_fromBigInt yi of Inl e \<Rightarrow> Inl e | Inr fy \<Rightarrow>
        case Fraction_mul fy Li0 of Inl e \<Rightarrow> Inl e | Inr t \<Rightarrow>
        case Fraction_add acc t of Inl e \<Rightarrow> Inl e | Inr acc' \<Rightarrow>
        lagrangeAtZero_outer points (i + 1) acc'
      else Inr acc)"
  by pat_completeness auto
termination
  by (relation "measure (\<lambda>(points, i, acc). length points - i)") auto

declare lagrangeAtZero_outer.simps [simp del]

definition lagrangeAtZero :: "share list \<Rightarrow> error + Fraction" where
  "lagrangeAtZero points =
     (case Fraction_new 0 1 of Inl e \<Rightarrow> Inl e | Inr acc \<Rightarrow> lagrangeAtZero_outer points 0 acc)"

function lagrangeEval_inner ::
  "share list \<Rightarrow> int \<Rightarrow> nat \<Rightarrow> nat \<Rightarrow> Fraction \<Rightarrow> Fraction \<Rightarrow> error + (Fraction \<times> Fraction)" where
  "lagrangeEval_inner points xq i j num den =
     (if j < length points then
        if i = j then lagrangeEval_inner points xq i (j + 1) num den
        else
          let xi = share_x (points ! i); xj = share_x (points ! j) in
          case Fraction_new (xq - xj) 1 of Inl e \<Rightarrow> Inl e | Inr a \<Rightarrow>
          case Fraction_mul num a of Inl e \<Rightarrow> Inl e | Inr num' \<Rightarrow>
          case Fraction_new (xi - xj) 1 of Inl e \<Rightarrow> Inl e | Inr b \<Rightarrow>
          case Fraction_mul den b of Inl e \<Rightarrow> Inl e | Inr den' \<Rightarrow>
          lagrangeEval_inner points xq i (j + 1) num' den'
      else Inr (num, den))"
  by pat_completeness auto
termination
  by (relation "measure (\<lambda>(points, xq, i, j, num, den). length points - j)") auto

declare lagrangeEval_inner.simps [simp del]

function lagrangeEval_outer :: "share list \<Rightarrow> int \<Rightarrow> nat \<Rightarrow> Fraction \<Rightarrow> error + Fraction" where
  "lagrangeEval_outer points xq i acc =
     (if i < length points then
        let yi = share_y (points ! i) in
        case Fraction_new 1 1 of Inl e \<Rightarrow> Inl e | Inr num1 \<Rightarrow>
        case Fraction_new 1 1 of Inl e \<Rightarrow> Inl e | Inr den1 \<Rightarrow>
        case lagrangeEval_inner points xq i 0 num1 den1 of Inl e \<Rightarrow> Inl e | Inr (num, den) \<Rightarrow>
        case Fraction_div num den of Inl e \<Rightarrow> Inl e | Inr Li \<Rightarrow>
        case Fraction_fromBigInt yi of Inl e \<Rightarrow> Inl e | Inr fy \<Rightarrow>
        case Fraction_mul fy Li of Inl e \<Rightarrow> Inl e | Inr t \<Rightarrow>
        case Fraction_add acc t of Inl e \<Rightarrow> Inl e | Inr acc' \<Rightarrow>
        lagrangeEval_outer points xq (i + 1) acc'
      else Inr acc)"
  by pat_completeness auto
termination
  by (relation "measure (\<lambda>(points, xq, i, acc). length points - i)") auto

declare lagrangeEval_outer.simps [simp del]

definition lagrangeEval :: "share list \<Rightarrow> int \<Rightarrow> error + Fraction" where
  "lagrangeEval points xq =
     (case Fraction_new 0 1 of Inl e \<Rightarrow> Inl e | Inr acc \<Rightarrow> lagrangeEval_outer points xq 0 acc)"

section \<open>The combinations generator\<close>

text \<open>
  The generator \<^verbatim>\<open>combinations(arr, k)\<close> keeps an index array \<^verbatim>\<open>idx\<close>. One round of its
  \<^verbatim>\<open>while (true)\<close> yields \<^verbatim>\<open>idx.map(i => arr[i])\<close>, scans \<^verbatim>\<open>p\<close> down from \<^verbatim>\<open>k - 1\<close> past
  the positions that hold their largest value \<^verbatim>\<open>p + n - k\<close>, stops when \<^verbatim>\<open>p < 0\<close>, and
  otherwise increments \<^verbatim>\<open>idx[p]\<close> and refills the positions after \<^verbatim>\<open>p\<close>.

  Nothing bounds the loop on an arbitrary index array, so it is a partial function: the
  value \<open>None\<close> is a generator that never finishes. The consumer in \<^verbatim>\<open>main\<close> has no effect
  on the generator, so the lazy sequence is modelled by the list of everything it yields.
\<close>

function comb_scan :: "nat \<Rightarrow> nat \<Rightarrow> nat list \<Rightarrow> int \<Rightarrow> int" where
  "comb_scan n k idx p =
     (if p \<ge> 0 \<and> int (idx ! nat p) = p + int n - int k then comb_scan n k idx (p - 1) else p)"
  by pat_completeness auto
termination
  by (relation "measure (\<lambda>(n, k, idx, p). nat (p + 1))") auto

declare comb_scan.simps [simp del]

function comb_fill :: "nat \<Rightarrow> nat list \<Rightarrow> nat \<Rightarrow> nat list" where
  "comb_fill k idx j =
     (if j < k then comb_fill k (idx[j := idx ! (j - 1) + 1]) (j + 1) else idx)"
  by pat_completeness auto
termination
  by (relation "measure (\<lambda>(k, idx, j). k - j)") auto

declare comb_fill.simps [simp del]

partial_function (option) comb_loop ::
  "'a list \<Rightarrow> nat \<Rightarrow> nat list \<Rightarrow> 'a list list \<Rightarrow> 'a list list option" where
  "comb_loop arr k idx out =
     (let out' = out @ [map (\<lambda>i. arr ! i) idx];
          p = comb_scan (length arr) k idx (int k - 1)
      in if p < 0 then Some out'
         else comb_loop arr k (comb_fill k (idx[nat p := idx ! nat p + 1]) (nat p + 1)) out')"

declare comb_loop.simps [code]

text \<open>
  \<^verbatim>\<open>Array.from({length: k}, (_, i) => i)\<close> is \<open>[0..<k]\<close>; a negative \<^verbatim>\<open>k\<close> gives the empty
  array.
\<close>

definition combinations :: "'a list \<Rightarrow> int \<Rightarrow> 'a list list option" where
  "combinations arr k =
     (if k > int (length arr) then Some []
      else comb_loop arr (nat k) [0..<nat k] [])"

section \<open>The search of main\<close>

text \<open>
  The object \<^verbatim>\<open>best\<close> of \<^verbatim>\<open>main\<close>, with \<^verbatim>\<open>null\<close> as \<open>None\<close>. It starts as
  \<^verbatim>\<open>{ fitCount: -1, subset: null, secretFrac: null, fits: null }\<close>.
\<close>

record best =
  best_fitCount :: int
  best_subset :: "share list option"
  best_secretFrac :: "Fraction option"
  best_fits :: "bool list option"

text \<open>The loop that checks a subset's polynomial on every share.\<close>

function verify_loop ::
  "share list \<Rightarrow> share list \<Rightarrow> nat \<Rightarrow> bool list \<Rightarrow> int \<Rightarrow> error + (bool list \<times> int)" where
  "verify_loop shares sub i fits fitCount =
     (if i < length shares then
        let p = shares ! i in
        case lagrangeEval sub (share_x p) of Inl e \<Rightarrow> Inl e
        | Inr val \<Rightarrow>
            if Fraction_isInteger val \<and> frac_n val = share_y p
            then verify_loop shares sub (i + 1) (fits[i := True]) (fitCount + 1)
            else verify_loop shares sub (i + 1) fits fitCount
      else Inr (fits, fitCount))"
  by pat_completeness auto
termination
  by (relation "measure (\<lambda>(shares, sub, i, fits, fitCount). length shares - i)") auto

declare verify_loop.simps [simp del]

text \<open>
  The body of \<^verbatim>\<open>for (const subset of combinations(shares, k))\<close>. The duplicate test
  compares the size of the set of the decimal strings of the \<^verbatim>\<open>x\<close> with their number; the
  decimal string of a BigInt determines it, so the set of the \<^verbatim>\<open>x\<close> has the same size.
  An exception of \<^verbatim>\<open>lagrangeAtZero\<close> is caught and the subset skipped; one of
  \<^verbatim>\<open>lagrangeEval\<close> is not caught and ends \<^verbatim>\<open>main\<close>.
\<close>

fun search :: "share list \<Rightarrow> share list list \<Rightarrow> best \<Rightarrow> error + best" where
  "search shares [] best = Inr best"
| "search shares (sub # rest) best =
     (let xs = map share_x sub in
      if card (set xs) \<noteq> length xs then search shares rest best
      else
        case lagrangeAtZero sub of Inl e \<Rightarrow> search shares rest best
        | Inr secretFrac \<Rightarrow>
            (case verify_loop shares sub 0 (replicate (length shares) False) 0 of
               Inl e \<Rightarrow> Inl e
             | Inr (fits, fitCount) \<Rightarrow>
                 if fitCount > best_fitCount best then
                   let best' = \<lparr>best_fitCount = fitCount, best_subset = Some sub,
                                best_secretFrac = Some secretFrac, best_fits = Some fits\<rparr>
                   in if fitCount = int (length shares) then Inr best'
                      else search shares rest best'
                 else search shares rest best))"

declare search.simps(2) [simp del]

text \<open>
  \<^verbatim>\<open>main\<close> from the two threshold checks to the check of \<^verbatim>\<open>best.subset\<close>: the operation
  \<open>reconstruct(shares, k)\<close> of the specification. \<open>None\<close> is a run that never ends; an
  error is \<^verbatim>\<open>process.exit(1)\<close>. The threshold \<^verbatim>\<open>k\<close> is an integer here, as in the
  specification.
\<close>

definition reconstruct :: "share list \<Rightarrow> int \<Rightarrow> (error + best) option" where
  "reconstruct shares k =
     (if k < 2 then Some (Inl InvalidThreshold)
      else if k > int (length shares) then Some (Inl InvalidThreshold)
      else
        case combinations shares k of None \<Rightarrow> None
        | Some subsets \<Rightarrow>
            (case search shares subsets
                    \<lparr>best_fitCount = - 1, best_subset = None,
                     best_secretFrac = None, best_fits = None\<rparr> of
               Inl e \<Rightarrow> Some (Inl e)
             | Inr best \<Rightarrow>
                 if best_subset best = None then Some (Inl ReconstructionFailed)
                 else Some (Inr best)))"

section \<open>The input parser\<close>

text \<open>
  \<^verbatim>\<open>parseInput\<close> works on the object that \<^verbatim>\<open>JSON.parse\<close> returns. The object is the list of
  its own keys, in the order of \<^verbatim>\<open>Object.keys\<close>, with the values; the keys of an object are
  pairwise distinct. A value is an object with numbers \<^verbatim>\<open>n\<close> and \<^verbatim>\<open>k\<close>, an object with
  strings \<^verbatim>\<open>base\<close> and \<^verbatim>\<open>value\<close>, or anything else. The numbers are integers, as the
  specification has them. Characters are bytes, so the strings are ASCII.
\<close>

datatype json_value = JKeys int int | JEntry string string | JOther

definition is_digit :: "char \<Rightarrow> bool" where
  "is_digit c \<longleftrightarrow> (48::nat) \<le> of_char c \<and> (of_char c :: nat) \<le> 57"

text \<open>The test \<^verbatim>\<open>/^\d+$/.test(k)\<close>.\<close>

definition digits_only :: "string \<Rightarrow> bool" where
  "digits_only s \<longleftrightarrow> s \<noteq> [] \<and> list_all is_digit s"

text \<open>\<^verbatim>\<open>BigInt(k)\<close> on a string of decimal digits; leading zeros are accepted.\<close>

definition BigInt_of_decimal :: "string \<Rightarrow> int" where
  "BigInt_of_decimal s = foldl (\<lambda>v c. v * 10 + (int (of_char c) - 48)) 0 s"

definition is_space :: "char \<Rightarrow> bool" where
  "is_space c \<longleftrightarrow> (of_char c :: nat) \<in> {9, 10, 11, 12, 13, 32}"

definition trim :: "string \<Rightarrow> string" where
  "trim s = rev (dropWhile is_space (rev (dropWhile is_space s)))"

text \<open>
  \<^verbatim>\<open>parseInt(s, 10)\<close>: white space, an optional sign, then the longest run of digits; NaN
  (\<open>None\<close>) without a digit.
\<close>

definition parseInt10 :: "string \<Rightarrow> int option" where
  "parseInt10 s =
     (let s1 = dropWhile is_space s;
          neg = (s1 \<noteq> [] \<and> hd s1 = CHR ''-'');
          s2 = (if s1 \<noteq> [] \<and> (hd s1 = CHR ''-'' \<or> hd s1 = CHR ''+'') then tl s1 else s1);
          ds = takeWhile is_digit s2
      in if ds = [] then None
         else Some (if neg then - BigInt_of_decimal ds else BigInt_of_decimal ds))"

definition toLowerCase :: "char \<Rightarrow> char" where
  "toLowerCase c =
     (if (65::nat) \<le> of_char c \<and> (of_char c :: nat) \<le> 90 then char_of (of_char c + 32 :: nat) else c)"

definition charToVal :: "char \<Rightarrow> error + int" where
  "charToVal ch =
     (let c = toLowerCase ch in
      if (48::nat) \<le> of_char c \<and> (of_char c :: nat) \<le> 57 then Inr (int (of_char c) - 48)
      else if (97::nat) \<le> of_char c \<and> (of_char c :: nat) \<le> 122 then Inr (int (of_char c) - 97 + 10)
      else Inl UnsupportedDigit)"

fun parseInBase_loop :: "int \<Rightarrow> string \<Rightarrow> int \<Rightarrow> error + int" where
  "parseInBase_loop B [] v = Inr v"
| "parseInBase_loop B (rawCh # rest) v =
     (if rawCh = CHR ''_'' \<or> rawCh = CHR '' '' then parseInBase_loop B rest v
      else
        case charToVal rawCh of Inl e \<Rightarrow> Inl e
        | Inr d \<Rightarrow> if d \<ge> B then Inl InvalidDigit else parseInBase_loop B rest (v * B + d))"

definition parseInBase :: "string \<Rightarrow> int option \<Rightarrow> error + int" where
  "parseInBase str base =
     (case base of None \<Rightarrow> Inl UnsupportedBase
      | Some B \<Rightarrow>
          if B < 2 \<or> B > 36 then Inl UnsupportedBase
          else parseInBase_loop B (trim str) 0)"

text \<open>
  The loop of \<^verbatim>\<open>parseInput\<close> over \<^verbatim>\<open>Object.keys(data)\<close>. The first entry that throws ends it.
  A share is pushed only after \<^verbatim>\<open>parseInBase\<close> has returned, so its base is a number.
\<close>

fun parse_entries :: "(string \<times> json_value) list \<Rightarrow> error + share list" where
  "parse_entries [] = Inr []"
| "parse_entries ((k, entry) # rest) =
     (if k = ''keys'' then parse_entries rest
      else if \<not> digits_only k then parse_entries rest
      else
        case entry of
          JEntry base value \<Rightarrow>
            (case parseInBase value (parseInt10 base) of Inl e \<Rightarrow> Inl e
             | Inr y \<Rightarrow>
                 (case parse_entries rest of Inl e \<Rightarrow> Inl e
                  | Inr shares \<Rightarrow>
                      Inr (\<lparr>share_x = BigInt_of_decimal k, share_y = y,
                            share_base = (case parseInt10 base of Some B \<Rightarrow> B | None \<Rightarrow> 0),
                            share_raw = value, share_label = k\<rparr> # shares)))
        | JKeys n' k' \<Rightarrow> Inl InvalidEntry
        | JOther \<Rightarrow> Inl InvalidEntry)"

record parsed =
  parsed_n :: int
  parsed_k :: int
  parsed_shares :: "share list"

text \<open>The sort of \<^verbatim>\<open>parseInput\<close> is stable, as the insertion sort \<open>sort_key\<close> is.\<close>

definition parseInput :: "(string \<times> json_value) list \<Rightarrow> error + parsed" where
  "parseInput data =
     (case map_of data ''keys'' of
        Some (JKeys n' k') \<Rightarrow>
          (case parse_entries data of Inl e \<Rightarrow> Inl e
           | Inr shares \<Rightarrow>
               Inr \<lparr>parsed_n = n', parsed_k = k', parsed_shares = sort_key share_x shares\<rparr>)
      | Some (JEntry b v) \<Rightarrow> Inl InvalidJSON
      | Some JOther \<Rightarrow> Inl InvalidJSON
      | None \<Rightarrow> Inl InvalidJSON)"

text \<open>\<^verbatim>\<open>main\<close> up to its output: the parser, then the reconstruction.\<close>

definition main :: "(string \<times> json_value) list \<Rightarrow> (error + best) option" where
  "main data =
     (case parseInput data of Inl e \<Rightarrow> Some (Inl e)
      | Inr p \<Rightarrow> reconstruct (parsed_shares p) (parsed_k p))"

section \<open>Specification-level definitions\<close>

text \<open>
  The combination generator as the specification words it: every sub-sequence of size \<open>k\<close>
  of an ordered sequence, the elements in their original relative order, the
  sub-sequences in lexicographic order of their indices. This definition follows the
  specification, not the code; the generator is compared with it.
\<close>

fun k_subseqs :: "nat \<Rightarrow> 'a list \<Rightarrow> 'a list list" where
  "k_subseqs 0 xs = [ []]"
| "k_subseqs (Suc k) [] = []"
| "k_subseqs (Suc k) (x # xs) = map ((#) x) (k_subseqs k xs) @ k_subseqs (Suc k) xs"

text \<open>The \<open>m\<close> consecutive numbers from \<open>v\<close> on.\<close>

definition consecutive :: "nat \<Rightarrow> nat \<Rightarrow> nat list" where
  "consecutive v m = [v..<v + m]"

text \<open>
  The successor of an index list among the increasing index lists below \<open>n\<close>, by recursion
  on the list: \<open>None\<close> when every position holds its largest value. It is the step of the
  generator's loop, read from the left.
\<close>

fun nxt :: "nat \<Rightarrow> nat list \<Rightarrow> nat list option" where
  "nxt n [] = None"
| "nxt n (i # rest) =
     (case nxt n rest of
        Some r \<Rightarrow> Some (i # r)
      | None \<Rightarrow>
          if i = n - Suc (length rest) then None
          else Some (consecutive (Suc i) (Suc (length rest))))"

text \<open>Strict lexicographic order on index lists.\<close>

definition lex_less :: "nat list \<Rightarrow> nat list \<Rightarrow> bool" where
  "lex_less a b \<longleftrightarrow> (a, b) \<in> lexord {(i, j). i < j}"

text \<open>
  The Lagrange form over a list of points, as rationals: the numerator and the denominator
  that the inner iterations build for the point \<open>i\<close>, and the sum of the outer loop.
\<close>

definition lag_num :: "share list \<Rightarrow> rat \<Rightarrow> nat \<Rightarrow> rat" where
  "lag_num points q i =
     prod_list (map (\<lambda>l. q - of_int (share_x (points ! l)))
       (filter (\<lambda>l. l \<noteq> i) [0..<length points]))"

definition lag_den :: "share list \<Rightarrow> nat \<Rightarrow> rat" where
  "lag_den points i =
     prod_list (map (\<lambda>l. of_int (share_x (points ! i)) - of_int (share_x (points ! l)))
       (filter (\<lambda>l. l \<noteq> i) [0..<length points]))"

definition lag_sum :: "share list \<Rightarrow> rat \<Rightarrow> rat" where
  "lag_sum points q =
     sum_list (map (\<lambda>i. of_int (share_y (points ! i)) * (lag_num points q i / lag_den points i))
       [0..<length points])"

text \<open>
  The polynomial of a subset, as the specification gives it: the sum over the points of
  \<open>y\<close> times the basis polynomial \<open>L(q)\<close>, the product of \<open>(q - t) / (s - t)\<close> over the other
  abscissas \<open>t\<close>.
\<close>

definition lbasis :: "rat set \<Rightarrow> rat \<Rightarrow> rat \<Rightarrow> rat" where
  "lbasis X s q = (\<Prod>t\<in>X - {s}. (q - t) / (s - t))"

definition subset_poly :: "share list \<Rightarrow> rat \<Rightarrow> rat" where
  "subset_poly points q =
     (\<Sum>p\<in>set points. of_int (share_y p)
        * lbasis ((\<lambda>p. of_int (share_x p)) ` set points) (of_int (share_x p)) q)"

text \<open>The abscissas of a list of points, as rationals.\<close>

definition abscissas :: "share list \<Rightarrow> rat list" where
  "abscissas points = map (\<lambda>p. of_int (share_x p)) points"

text \<open>
  A share with the coordinates \<open>(x, y)\<close>, as the parser builds it from the key \<open>x\<close> and a
  decimal value; only the coordinates play a part in the reconstruction.
\<close>

definition point :: "int \<Rightarrow> int \<Rightarrow> share" where
  "point a b = \<lparr>share_x = a, share_y = b, share_base = 10, share_raw = [], share_label = []\<rparr>"

text \<open>
  A share lies on the polynomial of a subset: the consensus test of the specification.
\<close>

definition on_poly :: "share list \<Rightarrow> share \<Rightarrow> bool" where
  "on_poly sub p \<longleftrightarrow> subset_poly sub (of_int (share_x p)) = of_int (share_y p)"

text \<open>
  A candidate \<open>b\<close> that reports the subset \<open>sub\<close> faithfully: the subset has distinct abscissas,
  the secret is the value of its polynomial at 0, the fit vector marks the shares on the
  polynomial and the fit count is their number.
\<close>

definition explained_by :: "share list \<Rightarrow> share list \<Rightarrow> best \<Rightarrow> bool" where
  "explained_by shares sub b \<longleftrightarrow>
     distinct (map share_x sub)
     \<and> best_subset b = Some sub
     \<and> best_secretFrac b = Some (frac_of (subset_poly sub 0))
     \<and> best_fits b = Some (map (on_poly sub) shares)
     \<and> best_fitCount b = int (length (filter (on_poly sub) shares))"

section \<open>Shares of an integer polynomial\<close>

text \<open>
  The share sets of the specification's exactness property, in its words: the values of a
  polynomial with integer coefficients at \<open>x = 1..n\<close>. The list \<open>coefficients\<close> holds the
  coefficients from the constant term up, so a list of length \<open>k\<close> is a polynomial of degree at
  most \<open>k - 1\<close>. The generator of the source draws random coefficients and computes in
  floating point; the specification puts it outside the core, and it is not modelled.
\<close>

definition poly_eval :: "int list \<Rightarrow> int \<Rightarrow> int" where
  "poly_eval coefficients v =
     sum_list (map (\<lambda>i. coefficients ! i * v ^ i) [0..<length coefficients])"

definition poly_shares :: "int list \<Rightarrow> nat \<Rightarrow> share list" where
  "poly_shares coefficients n =
     map (\<lambda>v. point (int v) (poly_eval coefficients (int v))) [1..<Suc n]"

section \<open>Facts about Fraction\<close>

lemma bigGcd_loop_gcd: "0 \<le> a \<Longrightarrow> 0 \<le> b \<Longrightarrow> bigGcd_loop a b = gcd a b"
proof (induction a b rule: bigGcd_loop.induct)
  case (1 a b)
  show ?case
  proof (cases "b = 0")
    case True
    with "1.prems" show ?thesis by (subst bigGcd_loop.simps) simp
  next
    case False
    from "1.prems" have sm: "a smod b = a mod b"
      by (simp add: signed_modulo_int_def sgn_if)
    from False "1.prems" have "0 \<le> a mod b"
      by simp
    with "1.IH" [OF False] "1.prems" sm have "bigGcd_loop b (a smod b) = gcd b (a mod b)"
      by simp
    also have "\<dots> = gcd a b"
      by (metis gcd.commute gcd_red_int)
    finally show ?thesis
      using False by (subst bigGcd_loop.simps) simp
  qed
qed

lemma bigGcd_gcd: "bigGcd a b = gcd a b"
proof -
  have "bigGcd a b = gcd \<bar>a\<bar> \<bar>b\<bar>"
    unfolding bigGcd_def bigAbs_def
    by (simp add: bigGcd_loop_gcd abs_if)
  then show ?thesis
    by simp
qed

lemma sdiv_exact: "g dvd a \<Longrightarrow> (a::int) sdiv g = a div g"
  by (simp add: signed_divide_int_eq_divide_int)

lemma Fraction_new_frac_of:
  assumes "b \<noteq> 0"
  shows "Fraction_new a b = Inr (frac_of (Fract a b))"
proof (cases "b < 0")
  case True
  have "quotient_of (Fract a b) = Rat.normalize (- a, - b)"
    using True by (simp add: quotient_of_Fract)
  also have "\<dots> = ((- a) div gcd a b, (- b) div gcd a b)"
    using True by (simp add: Rat.normalize_def Let_def)
  finally show ?thesis
    using True assms
    by (simp add: Fraction_new_def frac_of_def bigGcd_gcd sdiv_exact Let_def)
next
  case False
  with assms have pos: "b > 0" by simp
  have "quotient_of (Fract a b) = (a div gcd a b, b div gcd a b)"
    using pos by (simp add: quotient_of_Fract Rat.normalize_def Let_def)
  then show ?thesis
    using pos by (simp add: Fraction_new_def frac_of_def bigGcd_gcd sdiv_exact Let_def)
qed

lemma canonical_frac_of: "canonical (frac_of r)"
proof -
  obtain p q where pq: "quotient_of r = (p, q)"
    by (cases "quotient_of r")
  from quotient_of_denom_pos [OF pq] quotient_of_coprime [OF pq]
  show ?thesis
    by (simp add: canonical_def frac_of_def pq coprime_iff_gcd_eq_1)
qed

lemma rat_of_frac_of: "rat_of (frac_of r) = r"
proof -
  obtain p q where pq: "quotient_of r = (p, q)"
    by (cases "quotient_of r")
  have "rat_of (frac_of r) = Fract p q"
    by (simp add: rat_of_def frac_of_def pq)
  also have "\<dots> = r"
    using quotient_of_div [OF pq] by (simp only: Fract_of_int_quotient)
  finally show ?thesis .
qed

lemma frac_of_rat_of:
  assumes "canonical f"
  shows "frac_of (rat_of f) = f"
proof -
  from assms have pos: "frac_d f > 0" and cop: "coprime (frac_n f) (frac_d f)"
    by (simp_all add: canonical_def coprime_iff_gcd_eq_1)
  then have "quotient_of (Fract (frac_n f) (frac_d f)) = (frac_n f, frac_d f)"
    by (simp add: quotient_of_Fract)
  then show ?thesis
    by (simp add: frac_of_def rat_of_def)
qed
lemma frac_d_frac_of_nonzero: "frac_d (frac_of r) \<noteq> 0"
  using quotient_of_denom_pos' [of r] by (simp add: frac_of_def)

lemma Fract_frac_of: "Fract (frac_n (frac_of r)) (frac_d (frac_of r)) = r"
  using rat_of_frac_of [of r] by (simp add: rat_of_def)

lemma frac_n_frac_of_zero: "frac_n (frac_of r) = 0 \<longleftrightarrow> r = 0"
proof
  assume "frac_n (frac_of r) = 0"
  with Fract_frac_of [of r] show "r = 0"
    by (simp add: rat_number_collapse)
next
  assume "r = 0"
  then show "frac_n (frac_of r) = 0"
    by (simp add: frac_of_def)
qed

lemma Fraction_add_frac_of:
  "Fraction_add (frac_of r) (frac_of s) = Inr (frac_of (r + s))"
proof -
  have "Fract (frac_n (frac_of r) * frac_d (frac_of s) + frac_n (frac_of s) * frac_d (frac_of r))
          (frac_d (frac_of r) * frac_d (frac_of s))
        = Fract (frac_n (frac_of r)) (frac_d (frac_of r))
          + Fract (frac_n (frac_of s)) (frac_d (frac_of s))"
    by (simp add: frac_d_frac_of_nonzero)
  then show ?thesis
    by (simp add: Fraction_add_def Fraction_new_frac_of frac_d_frac_of_nonzero Fract_frac_of)
qed

lemma Fraction_sub_frac_of:
  "Fraction_sub (frac_of r) (frac_of s) = Inr (frac_of (r - s))"
proof -
  have "Fract (frac_n (frac_of r) * frac_d (frac_of s) - frac_n (frac_of s) * frac_d (frac_of r))
          (frac_d (frac_of r) * frac_d (frac_of s))
        = Fract (frac_n (frac_of r)) (frac_d (frac_of r))
          - Fract (frac_n (frac_of s)) (frac_d (frac_of s))"
    by (simp add: frac_d_frac_of_nonzero)
  then show ?thesis
    by (simp add: Fraction_sub_def Fraction_new_frac_of frac_d_frac_of_nonzero Fract_frac_of)
qed

lemma Fraction_mul_frac_of:
  "Fraction_mul (frac_of r) (frac_of s) = Inr (frac_of (r * s))"
proof -
  have "Fract (frac_n (frac_of r) * frac_n (frac_of s))
          (frac_d (frac_of r) * frac_d (frac_of s))
        = Fract (frac_n (frac_of r)) (frac_d (frac_of r))
          * Fract (frac_n (frac_of s)) (frac_d (frac_of s))"
    by simp
  then show ?thesis
    by (simp add: Fraction_mul_def Fraction_new_frac_of frac_d_frac_of_nonzero Fract_frac_of)
qed

lemma Fraction_div_frac_of:
  "Fraction_div (frac_of r) (frac_of s) =
     (if s = 0 then Inl DivisionByZero else Inr (frac_of (r / s)))"
proof (cases "s = 0")
  case True
  then show ?thesis
    by (simp add: Fraction_div_def frac_n_frac_of_zero)
next
  case False
  then have nz: "frac_n (frac_of s) \<noteq> 0"
    by (simp add: frac_n_frac_of_zero)
  have "Fract (frac_n (frac_of r) * frac_d (frac_of s))
          (frac_d (frac_of r) * frac_n (frac_of s))
        = Fract (frac_n (frac_of r)) (frac_d (frac_of r))
          / Fract (frac_n (frac_of s)) (frac_d (frac_of s))"
    by simp
  then show ?thesis
    using False nz
    by (simp add: Fraction_div_def Fraction_new_frac_of frac_d_frac_of_nonzero Fract_frac_of)
qed

lemma Fraction_new_int: "Fraction_new v 1 = Inr (frac_of (of_int v))"
  by (simp add: Fraction_new_frac_of Fract_of_int_eq)

lemma Fraction_new_canonical: "Fraction_new a b = Inr f \<Longrightarrow> canonical f"
proof (cases "b = 0")
  case True
  then show "Fraction_new a b = Inr f \<Longrightarrow> canonical f"
    by (simp add: Fraction_new_def)
next
  case False
  assume "Fraction_new a b = Inr f"
  with Fraction_new_frac_of [OF False, of a] have "f = frac_of (Fract a b)"
    by simp
  then show "canonical f"
    by (simp add: canonical_frac_of)
qed

lemma Fraction_ops_canonical:
  "Fraction_add p q = Inr f \<Longrightarrow> canonical f"
  "Fraction_sub p q = Inr f \<Longrightarrow> canonical f"
  "Fraction_mul p q = Inr f \<Longrightarrow> canonical f"
  "Fraction_div p q = Inr f \<Longrightarrow> canonical f"
  by (auto simp: Fraction_add_def Fraction_sub_def Fraction_mul_def Fraction_div_def
      split: if_splits dest: Fraction_new_canonical)

lemma canonical_ops_total:
  assumes "canonical p" "canonical q"
  shows "\<exists>f. Fraction_add p q = Inr f" "\<exists>f. Fraction_sub p q = Inr f"
    "\<exists>f. Fraction_mul p q = Inr f"
    "Fraction_div p q = (if frac_n q = 0 then Inl DivisionByZero
       else Inr (frac_of (rat_of p / rat_of q)))"
proof -
  have p: "p = frac_of (rat_of p)" and q: "q = frac_of (rat_of q)"
    using assms by (simp_all add: frac_of_rat_of)
  show "\<exists>f. Fraction_add p q = Inr f"
    by (subst p, subst q) (simp only: Fraction_add_frac_of, blast)
  show "\<exists>f. Fraction_sub p q = Inr f"
    by (subst p, subst q) (simp only: Fraction_sub_frac_of, blast)
  show "\<exists>f. Fraction_mul p q = Inr f"
    by (subst p, subst q) (simp only: Fraction_mul_frac_of, blast)
  have "Fraction_div (frac_of (rat_of p)) (frac_of (rat_of q)) =
     (if frac_n (frac_of (rat_of q)) = 0 then Inl DivisionByZero
       else Inr (frac_of (rat_of p / rat_of q)))"
    by (simp add: Fraction_div_frac_of frac_n_frac_of_zero)
  then show "Fraction_div p q = (if frac_n q = 0 then Inl DivisionByZero
       else Inr (frac_of (rat_of p / rat_of q)))"
    using p q by simp
qed


text \<open>
  Claim C4. Every fraction that the constructor or \<open>add\<close>, \<open>sub\<close>, \<open>mul\<close>, \<open>div\<close> returns
  is in canonical form: the gcd of the absolute numerator and the denominator is 1 and the
  denominator is positive. The constructor returns a fraction for every non-zero
  denominator and the operations return one on canonical operands (division when the
  divisor's numerator is not zero). From \<open>(6, -4)\<close> the constructor makes \<open>-3/2\<close>, and it
  fails with \<open>InvalidFraction\<close> on the denominator 0.
\<close>

theorem C4_Fraction_canonical:
  "(Fraction_new a b = Inr f0 \<longrightarrow> canonical f0)
   \<and> (Fraction_add p q = Inr f1 \<longrightarrow> canonical f1)
   \<and> (Fraction_sub p q = Inr f2 \<longrightarrow> canonical f2)
   \<and> (Fraction_mul p q = Inr f3 \<longrightarrow> canonical f3)
   \<and> (Fraction_div p q = Inr f4 \<longrightarrow> canonical f4)
   \<and> (b \<noteq> 0 \<longrightarrow> (\<exists>f. Fraction_new a b = Inr f))
   \<and> (canonical p \<and> canonical q \<longrightarrow>
        (\<exists>f. Fraction_add p q = Inr f) \<and> (\<exists>f. Fraction_sub p q = Inr f)
        \<and> (\<exists>f. Fraction_mul p q = Inr f)
        \<and> (frac_n q \<noteq> 0 \<longrightarrow> (\<exists>f. Fraction_div p q = Inr f)))
   \<and> Fraction_new 6 (- 4) = Inr \<lparr>frac_n = - 3, frac_d = 2\<rparr>
   \<and> Fraction_new a 0 = Inl InvalidFraction"
proof -
  have new: "Fraction_new a b = Inr f0 \<longrightarrow> canonical f0"
    by (blast dest: Fraction_new_canonical)
  have ops: "(Fraction_add p q = Inr f1 \<longrightarrow> canonical f1)
      \<and> (Fraction_sub p q = Inr f2 \<longrightarrow> canonical f2)
      \<and> (Fraction_mul p q = Inr f3 \<longrightarrow> canonical f3)
      \<and> (Fraction_div p q = Inr f4 \<longrightarrow> canonical f4)"
    by (blast dest: Fraction_ops_canonical)
  have tot: "b \<noteq> 0 \<longrightarrow> (\<exists>f. Fraction_new a b = Inr f)"
    by (simp add: Fraction_new_frac_of)
  have tot_ops: "canonical p \<and> canonical q \<longrightarrow>
        (\<exists>f. Fraction_add p q = Inr f) \<and> (\<exists>f. Fraction_sub p q = Inr f)
        \<and> (\<exists>f. Fraction_mul p q = Inr f)
        \<and> (frac_n q \<noteq> 0 \<longrightarrow> (\<exists>f. Fraction_div p q = Inr f))"
    using canonical_ops_total [of p q] by simp
  have ex: "Fraction_new 6 (- 4) = Inr \<lparr>frac_n = - 3, frac_d = 2\<rparr>"
    by code_simp
  have zero: "Fraction_new a 0 = Inl InvalidFraction"
    by (simp add: Fraction_new_def)
  from new ops tot tot_ops ex zero show ?thesis
    by blast
qed

theorem C4_Fraction_canonical_witness:
  "Fraction_new 6 (- 4) = Inr \<lparr>frac_n = - 3, frac_d = 2\<rparr>
   \<and> canonical \<lparr>frac_n = - 3, frac_d = 2\<rparr>
   \<and> Fraction_add \<lparr>frac_n = 1, frac_d = 2\<rparr> \<lparr>frac_n = 1, frac_d = 3\<rparr>
       = Inr \<lparr>frac_n = 5, frac_d = 6\<rparr>
   \<and> canonical \<lparr>frac_n = 5, frac_d = 6\<rparr>
   \<and> Fraction_sub \<lparr>frac_n = 1, frac_d = 2\<rparr> \<lparr>frac_n = 1, frac_d = 3\<rparr>
       = Inr \<lparr>frac_n = 1, frac_d = 6\<rparr>
   \<and> canonical \<lparr>frac_n = 1, frac_d = 6\<rparr>
   \<and> Fraction_mul \<lparr>frac_n = 2, frac_d = 3\<rparr> \<lparr>frac_n = 3, frac_d = 4\<rparr>
       = Inr \<lparr>frac_n = 1, frac_d = 2\<rparr>
   \<and> canonical \<lparr>frac_n = 1, frac_d = 2\<rparr>
   \<and> Fraction_div \<lparr>frac_n = 1, frac_d = 2\<rparr> \<lparr>frac_n = - 1, frac_d = 3\<rparr>
       = Inr \<lparr>frac_n = - 3, frac_d = 2\<rparr>
   \<and> canonical \<lparr>frac_n = - 3, frac_d = 2\<rparr>
   \<and> (- 4 :: int) \<noteq> 0
   \<and> (\<exists>f. Fraction_new 6 (- 4) = Inr f)
   \<and> canonical \<lparr>frac_n = 1, frac_d = 2\<rparr> \<and> canonical \<lparr>frac_n = - 1, frac_d = 3\<rparr>
   \<and> frac_n \<lparr>frac_n = - 1, frac_d = 3\<rparr> \<noteq> 0
   \<and> (\<exists>f. Fraction_add \<lparr>frac_n = 1, frac_d = 2\<rparr> \<lparr>frac_n = - 1, frac_d = 3\<rparr> = Inr f)
   \<and> (\<exists>f. Fraction_sub \<lparr>frac_n = 1, frac_d = 2\<rparr> \<lparr>frac_n = - 1, frac_d = 3\<rparr> = Inr f)
   \<and> (\<exists>f. Fraction_mul \<lparr>frac_n = 1, frac_d = 2\<rparr> \<lparr>frac_n = - 1, frac_d = 3\<rparr> = Inr f)
   \<and> (\<exists>f. Fraction_div \<lparr>frac_n = 1, frac_d = 2\<rparr> \<lparr>frac_n = - 1, frac_d = 3\<rparr> = Inr f)"
proof -
  have a: "Fraction_new 6 (- 4) = Inr \<lparr>frac_n = - 3, frac_d = 2\<rparr>"
    by code_simp
  have b: "Fraction_add \<lparr>frac_n = 1, frac_d = 2\<rparr> \<lparr>frac_n = 1, frac_d = 3\<rparr>
       = Inr \<lparr>frac_n = 5, frac_d = 6\<rparr>"
    by code_simp
  have c: "Fraction_sub \<lparr>frac_n = 1, frac_d = 2\<rparr> \<lparr>frac_n = 1, frac_d = 3\<rparr>
       = Inr \<lparr>frac_n = 1, frac_d = 6\<rparr>"
    by code_simp
  have d: "Fraction_mul \<lparr>frac_n = 2, frac_d = 3\<rparr> \<lparr>frac_n = 3, frac_d = 4\<rparr>
       = Inr \<lparr>frac_n = 1, frac_d = 2\<rparr>"
    by code_simp
  have e: "Fraction_div \<lparr>frac_n = 1, frac_d = 2\<rparr> \<lparr>frac_n = - 1, frac_d = 3\<rparr>
       = Inr \<lparr>frac_n = - 3, frac_d = 2\<rparr>"
    by code_simp
  have f: "(- 4 :: int) \<noteq> 0"
    by simp
  from a b f
    C4_Fraction_canonical [of 6 "- 4" "\<lparr>frac_n = - 3, frac_d = 2\<rparr>"
      "\<lparr>frac_n = 1, frac_d = 2\<rparr>" "\<lparr>frac_n = 1, frac_d = 3\<rparr>"
      "\<lparr>frac_n = 5, frac_d = 6\<rparr>"]
  have g: "canonical \<lparr>frac_n = - 3, frac_d = 2\<rparr>"
    and h: "canonical \<lparr>frac_n = 5, frac_d = 6\<rparr>"
    and i: "\<exists>f. Fraction_new 6 (- 4) = Inr f"
    by blast+
  from c
    C4_Fraction_canonical [of 6 "- 4" _
      "\<lparr>frac_n = 1, frac_d = 2\<rparr>" "\<lparr>frac_n = 1, frac_d = 3\<rparr>" _
      "\<lparr>frac_n = 1, frac_d = 6\<rparr>"]
  have j: "canonical \<lparr>frac_n = 1, frac_d = 6\<rparr>"
    by blast
  from d
    C4_Fraction_canonical [of 6 "- 4" _
      "\<lparr>frac_n = 2, frac_d = 3\<rparr>" "\<lparr>frac_n = 3, frac_d = 4\<rparr>" _ _
      "\<lparr>frac_n = 1, frac_d = 2\<rparr>"]
  have k: "canonical \<lparr>frac_n = 1, frac_d = 2\<rparr>"
    by blast
  have l: "canonical \<lparr>frac_n = - 1, frac_d = 3\<rparr>"
    by code_simp
  have m: "frac_n \<lparr>frac_n = - 1, frac_d = 3\<rparr> \<noteq> 0"
    by simp
  from e k l m
    C4_Fraction_canonical [of 6 "- 4" _
      "\<lparr>frac_n = 1, frac_d = 2\<rparr>" "\<lparr>frac_n = - 1, frac_d = 3\<rparr>" _ _ _
      "\<lparr>frac_n = - 3, frac_d = 2\<rparr>"]
  have n: "canonical \<lparr>frac_n = - 3, frac_d = 2\<rparr>"
    and o: "(\<exists>f. Fraction_add \<lparr>frac_n = 1, frac_d = 2\<rparr> \<lparr>frac_n = - 1, frac_d = 3\<rparr> = Inr f)
      \<and> (\<exists>f. Fraction_sub \<lparr>frac_n = 1, frac_d = 2\<rparr> \<lparr>frac_n = - 1, frac_d = 3\<rparr> = Inr f)
      \<and> (\<exists>f. Fraction_mul \<lparr>frac_n = 1, frac_d = 2\<rparr> \<lparr>frac_n = - 1, frac_d = 3\<rparr> = Inr f)
      \<and> (\<exists>f. Fraction_div \<lparr>frac_n = 1, frac_d = 2\<rparr> \<lparr>frac_n = - 1, frac_d = 3\<rparr> = Inr f)"
    by blast+
  from a b c d e f g h i j k l m n o show ?thesis
    by blast
qed

section \<open>Facts about the combinations generator\<close>

lemma comb_scan_Cons:
  "- 1 \<le> p \<Longrightarrow> comb_scan n (Suc k) (i # rest) (p + 1) =
     (let q = comb_scan n k rest p in
      if q \<ge> 0 then q + 1 else if int i = int n - int k - 1 then - 1 else 0)"
proof (induction n k rest p rule: comb_scan.induct)
  case (1 n k idx p)
  show ?case
  proof (cases "p \<ge> 0 \<and> int (idx ! nat p) = p + int n - int k")
    case True
    then have nth: "(i # idx) ! nat (p + 1) = idx ! nat p"
      by (simp add: nat_add_distrib)
    from True have "- 1 \<le> p - 1" by simp
    from "1.IH" [OF True this] have IH: "comb_scan n (Suc k) (i # idx) p =
       (let q = comb_scan n k idx (p - 1) in
         if q \<ge> 0 then q + 1 else if int i = int n - int k - 1 then - 1 else 0)"
      by simp
    have l: "comb_scan n (Suc k) (i # idx) (p + 1) = comb_scan n (Suc k) (i # idx) p"
      using True nth by (subst comb_scan.simps) simp
    have r: "comb_scan n k idx p = comb_scan n k idx (p - 1)"
      using True by (subst comb_scan.simps) simp
    show ?thesis
      by (simp only: l r IH)
  next
    case False
    show ?thesis
    proof (cases "p \<ge> 0")
      case True
      then have nth: "(i # idx) ! nat (p + 1) = idx ! nat p"
        by (simp add: nat_add_distrib)
      have l: "comb_scan n (Suc k) (i # idx) (p + 1) = p + 1"
        using True False nth by (subst comb_scan.simps) simp
      have r: "comb_scan n k idx p = p"
        using True False by (subst comb_scan.simps) simp
      show ?thesis
        using True by (simp add: l r)
    next
      case neg: False
      with "1.prems" have p: "p = - 1" by simp
      have r: "comb_scan n k idx (- 1) = - 1"
        by (subst comb_scan.simps) simp
      have m: "comb_scan n (Suc k) (i # idx) (- 1) = - 1"
        by (subst comb_scan.simps) simp
      have l: "comb_scan n (Suc k) (i # idx) 0 =
          (if int i = int n - int k - 1 then - 1 else 0)"
        by (subst comb_scan.simps) (simp add: m)
      show ?thesis
        by (simp add: p l r)
    qed
  qed
qed

lemma consecutive_0: "consecutive v 0 = []"
  by (simp add: consecutive_def)

lemma consecutive_Suc: "consecutive v (Suc m) = v # consecutive (Suc v) m"
  by (simp add: consecutive_def upt_conv_Cons)

lemma length_consecutive: "length (consecutive v m) = m"
  by (simp add: consecutive_def)

lemma consecutive_upt: "consecutive 0 m = [0..<m]"
  by (simp add: consecutive_def)

lemma comb_fill_eq:
  "1 \<le> j \<Longrightarrow> j \<le> k \<Longrightarrow> length ys = k \<Longrightarrow>
   comb_fill k ys j = take j ys @ consecutive (ys ! (j - 1) + 1) (k - j)"
proof (induction k ys j rule: comb_fill.induct)
  case (1 k idx j)
  show ?case
  proof (cases "j < k")
    case True
    define w where "w = idx ! (j - 1) + 1"
    have "comb_fill k idx j = comb_fill k (idx[j := w]) (j + 1)"
      using True by (subst comb_fill.simps) (simp add: w_def)
    also have "\<dots> = take (j + 1) (idx[j := w]) @
        consecutive ((idx[j := w]) ! (j + 1 - 1) + 1) (k - (j + 1))"
      using "1.IH" [OF True] True "1.prems" by (simp add: w_def)
    also have "take (j + 1) (idx[j := w]) = take j idx @ [w]"
      using True "1.prems" by (simp add: take_Suc_conv_app_nth)
    also have "(idx[j := w]) ! (j + 1 - 1) = w"
      using True "1.prems" by simp
    also have "(take j idx @ [w]) @ consecutive (w + 1) (k - (j + 1))
        = take j idx @ consecutive w (Suc (k - (j + 1)))"
      by (simp add: consecutive_Suc)
    also have "Suc (k - (j + 1)) = k - j"
      using True by simp
    finally show ?thesis
      by (simp add: w_def)
  next
    case False
    with "1.prems" have "j = k" by simp
    then show ?thesis
      using "1.prems" by (subst comb_fill.simps) (simp add: consecutive_0)
  qed
qed

lemma comb_step_nxt:
  "length idx = k \<Longrightarrow> k \<le> n \<Longrightarrow>
   (comb_scan n k idx (int k - 1) < 0 \<longrightarrow> nxt n idx = None) \<and>
   (comb_scan n k idx (int k - 1) \<ge> 0 \<longrightarrow>
      nat (comb_scan n k idx (int k - 1)) < k \<and>
      nxt n idx = Some (take (nat (comb_scan n k idx (int k - 1))) idx @
        consecutive (idx ! nat (comb_scan n k idx (int k - 1)) + 1)
          (k - nat (comb_scan n k idx (int k - 1)))))"
proof (induction idx arbitrary: k)
  case Nil
  then have "comb_scan n k [] (int k - 1) = - 1"
    by (subst comb_scan.simps) simp
  then show ?case
    by simp
next
  case (Cons i rest)
  then obtain k' where k: "k = Suc k'" and len: "length rest = k'" and le: "k' \<le> n"
    by (cases k) auto
  define q where "q = comb_scan n k' rest (int k' - 1)"
  have scan: "comb_scan n k (i # rest) (int k - 1) =
      (if q \<ge> 0 then q + 1 else if int i = int n - int k' - 1 then - 1 else 0)"
    using comb_scan_Cons [of "int k' - 1" n k' i rest] by (simp add: k q_def Let_def)
  note IH = Cons.IH [OF len le, folded q_def]
  show ?case
  proof (cases "q \<ge> 0")
    case True
    with IH have lt: "nat q < k'"
      and nx: "nxt n rest = Some (take (nat q) rest @ consecutive (rest ! nat q + 1) (k' - nat q))"
      by simp_all
    have p: "comb_scan n k (i # rest) (int k - 1) = q + 1"
      using True scan by simp
    have natp: "nat (q + 1) = Suc (nat q)"
      using True by simp
    show ?thesis
      unfolding p natp using True lt nx by (simp add: k)
  next
    case False
    with IH have nx: "nxt n rest = None"
      by simp
    from Cons.prems have "Suc k' \<le> n"
      by (simp add: k)
    then have eq: "int i = int n - int k' - 1 \<longleftrightarrow> i = n - Suc k'"
      by auto
    show ?thesis
    proof (cases "i = n - Suc k'")
      case True
      then have "comb_scan n k (i # rest) (int k - 1) = - 1"
        using False scan eq by simp
      then show ?thesis
        using nx True len by simp
    next
      case ne: False
      then have "comb_scan n k (i # rest) (int k - 1) = 0"
        using False scan eq by simp
      then show ?thesis
        using nx ne len by (simp add: k)
    qed
  qed
qed

lemma comb_loop_chain:
  assumes n: "n = length arr" and kn: "k \<le> n"
  shows "successively (\<lambda>a b. nxt n a = Some b) (a # L) \<Longrightarrow>
    nxt n (last (a # L)) = None \<Longrightarrow> \<forall>b\<in>set (a # L). length b = k \<Longrightarrow>
    comb_loop arr k a out = Some (out @ map (map (\<lambda>i. arr ! i)) (a # L))"
proof (induction L arbitrary: a out)
  case Nil
  then have len: "length a = k" and nx: "nxt n a = None"
    by simp_all
  from comb_step_nxt [OF len kn] nx have "comb_scan n k a (int k - 1) < 0"
    by (cases "comb_scan n k a (int k - 1) < 0") auto
  then show ?case
    by (subst comb_loop.simps) (simp add: n [symmetric])
next
  case (Cons b L)
  then have len: "length a = k" and nx: "nxt n a = Some b"
    by simp_all
  define p where "p = comb_scan n k a (int k - 1)"
  from comb_step_nxt [OF len kn] nx have pos: "0 \<le> p" and lt: "nat p < k"
    and b: "b = take (nat p) a @ consecutive (a ! nat p + 1) (k - nat p)"
    unfolding p_def by (cases "comb_scan n k a (int k - 1) < 0"; auto)+
  have "comb_fill k (a[nat p := a ! nat p + 1]) (nat p + 1) =
      take (nat p + 1) (a[nat p := a ! nat p + 1]) @
      consecutive ((a[nat p := a ! nat p + 1]) ! (nat p + 1 - 1) + 1) (k - (nat p + 1))"
    using lt len by (intro comb_fill_eq) simp_all
  also have "\<dots> = take (nat p) a @ [a ! nat p + 1] @ consecutive (a ! nat p + 1 + 1) (k - (nat p + 1))"
    using lt len by (simp add: take_Suc_conv_app_nth)
  also have "\<dots> = take (nat p) a @ consecutive (a ! nat p + 1) (Suc (k - (nat p + 1)))"
    by (simp add: consecutive_Suc)
  also have "Suc (k - (nat p + 1)) = k - nat p"
    using lt by simp
  finally have fill: "comb_fill k (a[nat p := a ! nat p + 1]) (nat p + 1) = b"
    using b by simp
  have rest: "comb_loop arr k b (out @ [map (\<lambda>i. arr ! i) a]) =
      Some ((out @ [map (\<lambda>i. arr ! i) a]) @ map (map (\<lambda>i. arr ! i)) (b # L))"
    using Cons.prems by (intro Cons.IH) simp_all
  have "comb_loop arr k a out = comb_loop arr k b (out @ [map (\<lambda>i. arr ! i) a])"
    using pos fill by (subst comb_loop.simps) (simp add: n [symmetric] p_def [symmetric] Let_def)
  with rest show ?case
    by simp
qed

lemma k_subseqs_length_elems: "ys \<in> set (k_subseqs k xs) \<Longrightarrow> length ys = k"
  by (induction k xs arbitrary: ys rule: k_subseqs.induct) auto

lemma k_subseqs_empty_iff: "k_subseqs k xs = [] \<longleftrightarrow> length xs < k"
  by (induction k xs rule: k_subseqs.induct) auto

lemma length_k_subseqs: "length (k_subseqs k xs) = length xs choose k"
  by (induction k xs rule: k_subseqs.induct) auto

lemma hd_k_subseqs: "k \<le> length xs \<Longrightarrow> hd (k_subseqs k xs) = take k xs"
proof (induction k xs rule: k_subseqs.induct)
  case (3 k x xs)
  then have "k_subseqs k xs \<noteq> []"
    by (simp add: k_subseqs_empty_iff)
  with 3 show ?case
    by (simp add: hd_append hd_map)
qed simp_all

lemma k_subseqs_map: "k_subseqs k (map f xs) = map (map f) (k_subseqs k xs)"
  by (induction k xs rule: k_subseqs.induct) auto

lemma set_k_subseqs: "set (k_subseqs k xs) = {ys. subseq ys xs \<and> length ys = k}"
proof (induction k xs rule: k_subseqs.induct)
  case (1 xs)
  then show ?case by auto
next
  case (2 k)
  then show ?case by auto
next
  case (3 k x xs)
  show ?case
  proof (intro set_eqI iffI)
    fix ys
    assume "ys \<in> set (k_subseqs (Suc k) (x # xs))"
    with 3 show "ys \<in> {ys. subseq ys (x # xs) \<and> length ys = Suc k}"
      by auto
  next
    fix ys
    assume "ys \<in> {ys. subseq ys (x # xs) \<and> length ys = Suc k}"
    then have sub: "subseq ys (x # xs)" and len: "length ys = Suc k"
      by simp_all
    from len obtain y ys' where ys: "ys = y # ys'" and len': "length ys' = k"
      by (cases ys) auto
    show "ys \<in> set (k_subseqs (Suc k) (x # xs))"
    proof (cases "y = x")
      case True
      with sub ys have "subseq ys' xs"
        by simp
      with 3 len' True ys show ?thesis
        by auto
    next
      case False
      with sub ys have "subseq ys xs"
        by (simp add: subseq_Cons')
      with 3 len show ?thesis
        by auto
    qed
  qed
qed

lemma k_subseqs_chain:
  "xs = [lo..<n] \<Longrightarrow>
   successively (\<lambda>a b. nxt n a = Some b) (k_subseqs k xs) \<and>
   (k_subseqs k xs \<noteq> [] \<longrightarrow> nxt n (last (k_subseqs k xs)) = None)"
proof (induction k xs arbitrary: lo rule: k_subseqs.induct)
  case (1 xs)
  then show ?case by simp
next
  case (2 k)
  then show ?case by simp
next
  case (3 k x xs)
  from "3.prems" [symmetric] have lo: "lo < n" and x: "x = lo" and xs: "xs = [Suc lo..<n]"
    by (auto simp: upt_eq_Cons_conv)
  have lenxs: "length xs = n - Suc lo"
    by (simp add: xs)
  define L1 where "L1 = k_subseqs k xs"
  define L2 where "L2 = k_subseqs (Suc k) xs"
  note IH1 = "3.IH"(1) [OF xs, folded L1_def]
  note IH2 = "3.IH"(2) [OF xs, folded L2_def]
  have whole: "k_subseqs (Suc k) (x # xs) = map ((#) lo) L1 @ L2"
    by (simp add: L1_def L2_def x)
  show ?case
  proof (cases "L1 = []")
    case True
    then have "length xs < k"
      by (simp add: L1_def k_subseqs_empty_iff)
    then have "L2 = []"
      by (simp add: L2_def k_subseqs_empty_iff)
    with True whole show ?thesis
      by simp
  next
    case False
    then have kle: "k \<le> n - Suc lo"
      using lenxs by (simp add: L1_def k_subseqs_empty_iff)
    have lastlen: "length (last L1) = k"
      using False by (intro k_subseqs_length_elems [of _ k xs]) (simp add: L1_def [symmetric])
    from IH1 False have lastL1: "nxt n (last L1) = None"
      by simp
    have succ1: "successively (\<lambda>a b. nxt n a = Some b) (map ((#) lo) L1)"
      unfolding successively_map
      by (rule successively_mono [OF conjunct1 [OF IH1]]) simp_all
    have last1: "last (map ((#) lo) L1) = lo # last L1"
      using False by (simp add: last_map)
    have step: "nxt n (lo # last L1) =
        (if lo = n - Suc k then None else Some (consecutive (Suc lo) (Suc k)))"
      using lastL1 lastlen by simp
    show ?thesis
    proof (cases "L2 = []")
      case True
      then have "length xs < Suc k"
        by (simp add: L2_def k_subseqs_empty_iff)
      with kle lenxs lo have "lo = n - Suc k"
        by simp
      with step True succ1 last1 False show ?thesis
        unfolding whole by simp
    next
      case ne: False
      then have le2: "Suc k \<le> n - Suc lo"
        using lenxs by (simp add: L2_def k_subseqs_empty_iff)
      then have neq: "lo \<noteq> n - Suc k"
        by simp
      have "hd L2 = take (Suc k) xs"
        unfolding L2_def using le2 lenxs by (intro hd_k_subseqs) simp
      also have "\<dots> = consecutive (Suc lo) (Suc k)"
        unfolding xs consecutive_def using le2 by (intro take_upt) simp
      finally have hd2: "hd L2 = consecutive (Suc lo) (Suc k)" .
      from IH2 ne have last2: "nxt n (last L2) = None" and succ2: "successively (\<lambda>a b. nxt n a = Some b) L2"
        by simp_all
      show ?thesis
        unfolding whole using ne False succ1 succ2 last1 step neq hd2 last2
        by (simp add: successively_append_iff)
    qed
  qed
qed

lemma comb_loop_k_subseqs:
  assumes "k \<le> length arr"
  shows "comb_loop arr k [0..<k] [] = Some (k_subseqs k arr)"
proof -
  define n where "n = length arr"
  define L where "L = k_subseqs k [0..<n]"
  have ne: "L \<noteq> []"
    using assms by (simp add: L_def n_def k_subseqs_empty_iff)
  have "hd L = take k [0..<n]"
    unfolding L_def using assms by (intro hd_k_subseqs) (simp add: n_def)
  also have "\<dots> = [0..<k]"
    using assms by (simp add: n_def take_upt)
  finally have L: "L = [0..<k] # tl L"
    using ne by (cases L) simp_all
  from k_subseqs_chain [of "[0..<n]" 0 n k] ne
  have ch: "successively (\<lambda>a b. nxt n a = Some b) L" and fin: "nxt n (last L) = None"
    by (simp_all add: L_def)
  have lens: "\<forall>b\<in>set L. length b = k"
    by (auto simp: L_def dest: k_subseqs_length_elems)
  have "comb_loop arr k [0..<k] [] = Some ([] @ map (map (\<lambda>i. arr ! i)) ([0..<k] # tl L))"
    using assms ch fin lens L
    by (intro comb_loop_chain [of n]) (simp_all add: n_def)
  also have "[] @ map (map (\<lambda>i. arr ! i)) ([0..<k] # tl L) = map (map (\<lambda>i. arr ! i)) L"
    using L by simp
  also have "\<dots> = k_subseqs k (map (\<lambda>i. arr ! i) [0..<n])"
    by (simp add: L_def k_subseqs_map)
  also have "map (\<lambda>i. arr ! i) [0..<n] = arr"
    by (simp add: n_def map_nth)
  finally show ?thesis .
qed

lemma combinations_k_subseqs:
  "0 \<le> k \<Longrightarrow> k \<le> int (length arr) \<Longrightarrow> combinations arr k = Some (k_subseqs (nat k) arr)"
  by (simp add: combinations_def comb_loop_k_subseqs)

lemma lex_less_k_subseqs:
  "sorted_wrt (<) xs \<Longrightarrow> sorted_wrt lex_less (k_subseqs k xs)"
proof (induction k xs rule: k_subseqs.induct)
  case (1 xs)
  then show ?case by simp
next
  case (2 k)
  then show ?case by simp
next
  case (3 k x xs)
  have cross: "lex_less (x # a) b" if "b \<in> set (k_subseqs (Suc k) xs)" for a b
  proof -
    from that have "length b = Suc k" and "subseq b xs"
      by (simp_all add: set_k_subseqs)
    then obtain y b' where b: "b = y # b'" and "y \<in> set xs"
      by (cases b) (auto elim: list_emb_set [where x = "hd b"])
    with "3.prems" have "x < y"
      by auto
    then show ?thesis
      by (simp add: b lex_less_def)
  qed
  have same: "lex_less (x # a) (x # b) \<longleftrightarrow> lex_less a b" for a b
    by (simp add: lex_less_def)
  from 3 show ?case
    by (auto simp: sorted_wrt_append sorted_wrt_map same cross)
qed

lemma lex_less_irrefl: "\<not> lex_less a a"
  unfolding lex_less_def by (rule lexord_irreflexive) simp

lemma lex_less_trans: "lex_less a b \<Longrightarrow> lex_less b c \<Longrightarrow> lex_less a c"
  unfolding lex_less_def by (rule lexord_trans) (auto simp: trans_def)

lemma sorted_wrt_lex_less_distinct: "sorted_wrt lex_less xs \<Longrightarrow> distinct xs"
  by (induction xs) (auto simp: lex_less_irrefl)

section \<open>Facts about the interpolation functions\<close>

lemma lagrangeEval_inner_eq:
  "lagrangeEval_inner points xq i j (frac_of a) (frac_of b) =
     Inr (frac_of (a * prod_list (map (\<lambda>l. of_int xq - of_int (share_x (points ! l)))
            (filter (\<lambda>l. l \<noteq> i) [j..<length points]))),
          frac_of (b * prod_list (map (\<lambda>l. of_int (share_x (points ! i)) - of_int (share_x (points ! l)))
            (filter (\<lambda>l. l \<noteq> i) [j..<length points]))))"
proof (induction "length points - j" arbitrary: j a b)
  case 0
  then show ?case
    by (subst lagrangeEval_inner.simps) simp
next
  case (Suc m)
  then have lt: "j < length points" and m: "m = length points - (j + 1)"
    by simp_all
  have upt: "[j..<length points] = j # [j + 1..<length points]"
    using lt by (simp add: upt_conv_Cons)
  show ?case
  proof (cases "i = j")
    case True
    have "lagrangeEval_inner points xq i j (frac_of a) (frac_of b) =
        lagrangeEval_inner points xq i (j + 1) (frac_of a) (frac_of b)"
      using lt True by (subst lagrangeEval_inner.simps) simp
    then show ?thesis
      using Suc.hyps(1) [OF m, of a b] True by (simp add: upt)
  next
    case False
    have "lagrangeEval_inner points xq i j (frac_of a) (frac_of b) =
        lagrangeEval_inner points xq i (j + 1)
          (frac_of (a * of_int (xq - share_x (points ! j))))
          (frac_of (b * of_int (share_x (points ! i) - share_x (points ! j))))"
      using lt False
      by (subst lagrangeEval_inner.simps)
        (simp add: Fraction_new_int Fraction_mul_frac_of Let_def)
    then show ?thesis
      using Suc.hyps(1) [OF m] False by (simp add: upt mult.assoc)
  qed
qed

lemma lagrangeAtZero_inner_eq:
  "lagrangeAtZero_inner points i j num den = lagrangeEval_inner points 0 i j num den"
proof (induction "length points - j" arbitrary: j num den)
  case 0
  then show ?case
    by (subst lagrangeAtZero_inner.simps, subst lagrangeEval_inner.simps) simp
next
  case (Suc m)
  then have m: "m = length points - Suc j" and lt: "j < length points"
    by simp_all
  note IH = Suc.hyps(1) [OF m]
  show ?case
  proof (cases "i = j")
    case True
    have "lagrangeAtZero_inner points i j num den = lagrangeAtZero_inner points i (Suc j) num den"
      using True lt by (subst lagrangeAtZero_inner.simps) simp
    moreover have "lagrangeEval_inner points 0 i j num den = lagrangeEval_inner points 0 i (Suc j) num den"
      using True lt by (subst lagrangeEval_inner.simps) simp
    ultimately show ?thesis
      by (simp add: IH)
  next
    case False
    then show ?thesis
      by (subst lagrangeAtZero_inner.simps, subst lagrangeEval_inner.simps)
        (simp add: IH Let_def split: sum.splits)
  qed
qed

lemma Fraction_new_one: "Fraction_new 1 1 = Inr (frac_of 1)"
  using Fraction_new_int [of 1] by simp

lemma Fraction_new_zero: "Fraction_new 0 1 = Inr (frac_of 0)"
  using Fraction_new_int [of 0] by simp

lemma lagrangeEval_outer_eq:
  "lagrangeEval_outer points xq i (frac_of acc) =
     (if \<exists>i'\<in>{i..<length points}. lag_den points i' = 0 then Inl DivisionByZero
      else Inr (frac_of (acc + sum_list (map (\<lambda>i'. of_int (share_y (points ! i'))
             * (lag_num points (of_int xq) i' / lag_den points i')) [i..<length points]))))"
proof (induction "length points - i" arbitrary: i acc)
  case 0
  then show ?case
    by (subst lagrangeEval_outer.simps) simp
next
  case (Suc m)
  then have lt: "i < length points" and m: "m = length points - Suc i"
    by simp_all
  note IH = Suc.hyps(1) [OF m]
  have upt: "[i..<length points] = i # [Suc i..<length points]"
    using lt by (simp add: upt_conv_Cons)
  have rng: "{i..<length points} = insert i {Suc i..<length points}"
    using lt by auto
  have inner: "lagrangeEval_inner points xq i 0 (frac_of 1) (frac_of 1) =
      Inr (frac_of (lag_num points (of_int xq) i), frac_of (lag_den points i))"
    by (simp add: lagrangeEval_inner_eq lag_num_def lag_den_def)
  show ?case
  proof (cases "lag_den points i = 0")
    case True
    have "lagrangeEval_outer points xq i (frac_of acc) = Inl DivisionByZero"
      using lt True
      by (subst lagrangeEval_outer.simps)
        (simp add: Fraction_new_one inner Fraction_div_frac_of Let_def)
    then show ?thesis
      using True rng by simp
  next
    case False
    have "lagrangeEval_outer points xq i (frac_of acc) =
        lagrangeEval_outer points xq (Suc i)
          (frac_of (acc + of_int (share_y (points ! i))
             * (lag_num points (of_int xq) i / lag_den points i)))"
      using lt False
      by (subst lagrangeEval_outer.simps)
        (simp add: Fraction_new_one inner Fraction_div_frac_of Fraction_fromBigInt_def
          Fraction_new_int Fraction_mul_frac_of Fraction_add_frac_of Let_def)
    then show ?thesis
      using False by (simp add: IH rng upt add.assoc)
  qed
qed

lemma lagrangeAtZero_outer_eq:
  "lagrangeAtZero_outer points i acc = lagrangeEval_outer points 0 i acc"
proof (induction "length points - i" arbitrary: i acc)
  case 0
  then show ?case
    by (subst lagrangeAtZero_outer.simps, subst lagrangeEval_outer.simps) simp
next
  case (Suc m)
  then have m: "m = length points - Suc i" and lt: "i < length points"
    by simp_all
  note IH = Suc.hyps(1) [OF m]
  show ?case
    by (subst lagrangeAtZero_outer.simps, subst lagrangeEval_outer.simps)
      (simp add: IH lagrangeAtZero_inner_eq Let_def split: sum.splits)
qed

lemma lagrangeAtZero_eq_Eval: "lagrangeAtZero points = lagrangeEval points 0"
  by (simp add: lagrangeAtZero_def lagrangeEval_def lagrangeAtZero_outer_eq Fraction_new_zero)

lemma lag_den_zero_iff:
  "lag_den points i = 0 \<longleftrightarrow>
     (\<exists>l<length points. l \<noteq> i \<and> share_x (points ! l) = share_x (points ! i))"
proof
  assume "lag_den points i = 0"
  then show "\<exists>l<length points. l \<noteq> i \<and> share_x (points ! l) = share_x (points ! i)"
    by (auto simp: lag_den_def prod_list_zero_iff)
next
  assume "\<exists>l<length points. l \<noteq> i \<and> share_x (points ! l) = share_x (points ! i)"
  then obtain l where l: "l < length points" "l \<noteq> i"
    and eq: "share_x (points ! l) = share_x (points ! i)"
    by blast
  have "0 = (\<lambda>l. rat_of_int (share_x (points ! i)) - rat_of_int (share_x (points ! l))) l"
    by (simp add: eq)
  also have "\<dots> \<in> (\<lambda>l. rat_of_int (share_x (points ! i)) - rat_of_int (share_x (points ! l)))
      ` {l. l < length points \<and> l \<noteq> i}"
    using l by (intro imageI) simp
  finally show "lag_den points i = 0"
    by (simp add: lag_den_def prod_list_zero_iff)
qed

lemma lag_den_zero_distinct:
  "(\<exists>i\<in>{0..<length points}. lag_den points i = 0) \<longleftrightarrow> \<not> distinct (map share_x points)"
proof -
  have "(\<exists>i\<in>{0..<length points}. lag_den points i = 0) \<longleftrightarrow>
      (\<exists>i<length points. \<exists>l<length points. l \<noteq> i \<and> share_x (points ! l) = share_x (points ! i))"
    by (simp add: lag_den_zero_iff Bex_def)
  also have "\<dots> \<longleftrightarrow> \<not> distinct (map share_x points)"
    by (simp add: distinct_conv_nth) metis
  finally show ?thesis .
qed

lemma lagrangeEval_eq:
  "lagrangeEval points xq =
     (if distinct (map share_x points) then Inr (frac_of (lag_sum points (of_int xq)))
      else Inl DivisionByZero)"
  using lag_den_zero_distinct [of points]
  by (simp add: lagrangeEval_def Fraction_new_zero lagrangeEval_outer_eq lag_sum_def)

lemma nth_filter_neq:
  assumes "distinct xs" "i < length xs"
  shows "map (\<lambda>l. xs ! l) (filter (\<lambda>l. l \<noteq> i) [0..<length xs]) = filter (\<lambda>t. t \<noteq> xs ! i) xs"
proof -
  have "filter (\<lambda>l. l \<noteq> i) [0..<length xs] = filter ((\<lambda>t. t \<noteq> xs ! i) \<circ> (\<lambda>l. xs ! l)) [0..<length xs]"
    using assms by (intro filter_cong) (auto simp: nth_eq_iff_index_eq)
  then have "map (\<lambda>l. xs ! l) (filter (\<lambda>l. l \<noteq> i) [0..<length xs]) =
      filter (\<lambda>t. t \<noteq> xs ! i) (map (\<lambda>l. xs ! l) [0..<length xs])"
    by (simp only: filter_map)
  then show ?thesis
    by (simp add: map_nth)
qed

lemma prod_list_others:
  assumes "distinct xs" "i < length xs"
  shows "prod_list (map (\<lambda>l. h (xs ! l)) (filter (\<lambda>l. l \<noteq> i) [0..<length xs]))
    = (\<Prod>t\<in>set xs - {xs ! i}. h t)"
proof -
  have "map (\<lambda>l. h (xs ! l)) (filter (\<lambda>l. l \<noteq> i) [0..<length xs])
      = map h (map (\<lambda>l. xs ! l) (filter (\<lambda>l. l \<noteq> i) [0..<length xs]))"
    by simp
  also have "\<dots> = map h (filter (\<lambda>t. t \<noteq> xs ! i) xs)"
    by (simp only: nth_filter_neq [OF assms])
  finally have "prod_list (map (\<lambda>l. h (xs ! l)) (filter (\<lambda>l. l \<noteq> i) [0..<length xs]))
      = prod_list (map h (filter (\<lambda>t. t \<noteq> xs ! i) xs))"
    by simp
  also have "\<dots> = prod h (set (filter (\<lambda>t. t \<noteq> xs ! i) xs))"
    using assms by (intro prod.distinct_set_conv_list [symmetric]) simp
  also have "set (filter (\<lambda>t. t \<noteq> xs ! i) xs) = set xs - {xs ! i}"
    by auto
  finally show ?thesis .
qed

lemma distinct_abscissas: "distinct (abscissas points) \<longleftrightarrow> distinct (map share_x points)"
proof -
  have "abscissas points = map rat_of_int (map share_x points)"
    by (simp add: abscissas_def)
  then show ?thesis
    by (simp add: distinct_map inj_on_def del: map_map)
qed

lemma lag_ratio_lbasis:
  assumes "distinct (map share_x points)" "i < length points"
  shows "lag_num points q i / lag_den points i
    = lbasis (set (abscissas points)) (of_int (share_x (points ! i))) q"
proof -
  have d: "distinct (abscissas points)"
    using assms by (simp add: distinct_abscissas)
  have i: "i < length (abscissas points)"
    using assms by (simp add: abscissas_def)
  have nth: "abscissas points ! l = of_int (share_x (points ! l))" if "l < length points" for l
    using that by (simp add: abscissas_def)
  have len: "length (abscissas points) = length points"
    by (simp add: abscissas_def)
  have "lag_num points q i
      = prod_list (map (\<lambda>l. q - abscissas points ! l) (filter (\<lambda>l. l \<noteq> i) [0..<length (abscissas points)]))"
    unfolding lag_num_def len by (intro arg_cong [where f = prod_list] map_cong) (auto simp: nth)
  also have "\<dots> = (\<Prod>t\<in>set (abscissas points) - {abscissas points ! i}. q - t)"
    by (rule prod_list_others [OF d i])
  finally have num: "lag_num points q i
      = (\<Prod>t\<in>set (abscissas points) - {of_int (share_x (points ! i))}. q - t)"
    using assms by (simp add: nth)
  have "lag_den points i
      = prod_list (map (\<lambda>l. of_int (share_x (points ! i)) - abscissas points ! l)
          (filter (\<lambda>l. l \<noteq> i) [0..<length (abscissas points)]))"
    unfolding lag_den_def len by (intro arg_cong [where f = prod_list] map_cong) (auto simp: nth)
  also have "\<dots> = (\<Prod>t\<in>set (abscissas points) - {abscissas points ! i}. of_int (share_x (points ! i)) - t)"
    by (rule prod_list_others [OF d i])
  finally have den: "lag_den points i
      = (\<Prod>t\<in>set (abscissas points) - {of_int (share_x (points ! i))}. of_int (share_x (points ! i)) - t)"
    using assms by (simp add: nth)
  show ?thesis
    by (simp add: num den lbasis_def prod_dividef)
qed

lemma lag_sum_subset_poly:
  assumes "distinct (map share_x points)"
  shows "lag_sum points q = subset_poly points q"
proof -
  have dp: "distinct points"
    using assms by (simp add: distinct_map)
  have X: "set (abscissas points) = (\<lambda>p. of_int (share_x p)) ` set points"
    by (simp add: abscissas_def)
  have "lag_sum points q = sum_list (map (\<lambda>i. (\<lambda>p. of_int (share_y p)
        * lbasis (set (abscissas points)) (of_int (share_x p)) q) (points ! i)) [0..<length points])"
    unfolding lag_sum_def
    by (intro arg_cong [where f = sum_list] map_cong) (auto simp: lag_ratio_lbasis [OF assms])
  also have "\<dots> = sum_list (map (\<lambda>p. of_int (share_y p)
        * lbasis (set (abscissas points)) (of_int (share_x p)) q) (map (\<lambda>i. points ! i) [0..<length points]))"
    by (simp add: comp_def)
  also have "\<dots> = sum_list (map (\<lambda>p. of_int (share_y p)
        * lbasis (set (abscissas points)) (of_int (share_x p)) q) points)"
    by (simp only: map_nth)
  also have "\<dots> = (\<Sum>p\<in>set points. of_int (share_y p)
        * lbasis (set (abscissas points)) (of_int (share_x p)) q)"
    using dp by (rule sum.distinct_set_conv_list [symmetric])
  finally show ?thesis
    by (simp add: subset_poly_def X)
qed

lemma lagrangeEval_subset_poly:
  "lagrangeEval points xq =
     (if distinct (map share_x points) then Inr (frac_of (subset_poly points (of_int xq)))
      else Inl DivisionByZero)"
  by (simp add: lagrangeEval_eq lag_sum_subset_poly)

lemma lagrangeAtZero_subset_poly:
  "lagrangeAtZero points =
     (if distinct (map share_x points) then Inr (frac_of (subset_poly points 0))
      else Inl DivisionByZero)"
  using lagrangeEval_subset_poly [of points 0] by (simp add: lagrangeAtZero_eq_Eval)

lemma frac_of_int: "frac_of (of_int v) = \<lparr>frac_n = v, frac_d = 1\<rparr>"
  by (simp add: frac_of_def)

lemma frac_of_integer_iff:
  "Fraction_isInteger (frac_of r) \<and> frac_n (frac_of r) = v \<longleftrightarrow> r = of_int v"
proof
  assume "Fraction_isInteger (frac_of r) \<and> frac_n (frac_of r) = v"
  then have "frac_of r = \<lparr>frac_n = v, frac_d = 1\<rparr>"
    by (simp add: Fraction_isInteger_def)
  then have "frac_of r = frac_of (of_int v)"
    by (simp add: frac_of_int)
  then have "rat_of (frac_of r) = rat_of (frac_of (of_int v))"
    by simp
  then show "r = of_int v"
    by (simp only: rat_of_frac_of)
next
  assume "r = of_int v"
  then show "Fraction_isInteger (frac_of r) \<and> frac_n (frac_of r) = v"
    by (simp add: frac_of_int Fraction_isInteger_def)
qed

lemma subset_poly_cong: "set points' = set points \<Longrightarrow> subset_poly points' q = subset_poly points q"
  by (simp add: subset_poly_def)

section \<open>Lagrange interpolation is exact on polynomials\<close>

lemma lbasis_remove:
  assumes "finite X" "a \<in> X" "s \<in> X" "s \<noteq> a"
  shows "(s - a) * lbasis X s q = (q - a) * lbasis (X - {a}) s q"
proof -
  have X: "X - {s} = insert a (X - {a} - {s})"
    using assms by auto
  have "lbasis X s q = (q - a) / (s - a) * lbasis (X - {a}) s q"
    unfolding lbasis_def X using assms by (subst prod.insert) auto
  then show ?thesis
    using assms by simp
qed

lemma lbasis_sum_remove:
  assumes "finite X" "a \<in> X"
  shows "(\<Sum>s\<in>X. (s - a) * (F s * lbasis X s q))
    = (q - a) * (\<Sum>s\<in>X - {a}. F s * lbasis (X - {a}) s q)"
proof -
  have "(\<Sum>s\<in>X. (s - a) * (F s * lbasis X s q))
      = (a - a) * (F a * lbasis X a q) + (\<Sum>s\<in>X - {a}. (s - a) * (F s * lbasis X s q))"
    using assms by (rule sum.remove)
  also have "\<dots> = (\<Sum>s\<in>X - {a}. (s - a) * (F s * lbasis X s q))"
    by simp
  also have "\<dots> = (\<Sum>s\<in>X - {a}. (q - a) * (F s * lbasis (X - {a}) s q))"
  proof (rule sum.cong [OF refl])
    fix s
    assume "s \<in> X - {a}"
    then have "(s - a) * lbasis X s q = (q - a) * lbasis (X - {a}) s q"
      using assms by (intro lbasis_remove) auto
    then have "F s * ((s - a) * lbasis X s q) = F s * ((q - a) * lbasis (X - {a}) s q)"
      by simp
    then show "(s - a) * (F s * lbasis X s q) = (q - a) * (F s * lbasis (X - {a}) s q)"
      by (simp add: mult_ac)
  qed
  also have "\<dots> = (q - a) * (\<Sum>s\<in>X - {a}. F s * lbasis (X - {a}) s q)"
    by (simp add: sum_distrib_left)
  finally show ?thesis .
qed

lemma lbasis_sum_one:
  "finite X \<Longrightarrow> card X = Suc m \<Longrightarrow> (\<Sum>s\<in>X. lbasis X s q) = 1"
proof (induction m arbitrary: X)
  case 0
  then have "card X = 1"
    by simp
  then obtain s where "X = {s}"
    by (rule card_1_singletonE)
  then show ?case
    by (simp add: lbasis_def)
next
  case (Suc m)
  then obtain a where a: "a \<in> X"
    by (metis card_eq_SucD insertI1)
  with Suc.prems have "card (X - {a}) = Suc m"
    by simp
  then obtain b where b0: "b \<in> X - {a}"
    by (metis card_eq_SucD insertI1)
  then have b: "b \<in> X" and ab: "b \<noteq> a"
    by auto
  from Suc.prems b have cb: "card (X - {b}) = Suc m"
    by simp
  have Ia: "(\<Sum>s\<in>X - {a}. lbasis (X - {a}) s q) = 1"
    using Suc.prems \<open>card (X - {a}) = Suc m\<close> by (intro Suc.IH) auto
  have Ib: "(\<Sum>s\<in>X - {b}. lbasis (X - {b}) s q) = 1"
    using Suc.prems cb by (intro Suc.IH) auto
  have A: "(\<Sum>s\<in>X. (s - a) * (1 * lbasis X s q)) = (q - a) * (\<Sum>s\<in>X - {a}. 1 * lbasis (X - {a}) s q)"
    using Suc.prems(1) a by (rule lbasis_sum_remove)
  have B: "(\<Sum>s\<in>X. (s - b) * (1 * lbasis X s q)) = (q - b) * (\<Sum>s\<in>X - {b}. 1 * lbasis (X - {b}) s q)"
    using Suc.prems(1) b by (rule lbasis_sum_remove)
  have "(b - a) * (\<Sum>s\<in>X. lbasis X s q) = (\<Sum>s\<in>X. (b - a) * lbasis X s q)"
    by (simp add: sum_distrib_left)
  also have "\<dots> = (\<Sum>s\<in>X. (s - a) * (1 * lbasis X s q) - (s - b) * (1 * lbasis X s q))"
    by (intro sum.cong refl) (simp add: algebra_simps)
  also have "\<dots> = (\<Sum>s\<in>X. (s - a) * (1 * lbasis X s q)) - (\<Sum>s\<in>X. (s - b) * (1 * lbasis X s q))"
    by (rule sum_subtractf)
  also have "\<dots> = (q - a) - (q - b)"
    using Ia Ib by (simp only: A B) simp
  finally have "(b - a) * (\<Sum>s\<in>X. lbasis X s q) = (b - a) * 1"
    by simp
  with ab show ?case
    by simp
qed

lemma lagrange_exact:
  "finite X \<Longrightarrow> card X = Suc n \<Longrightarrow>
   (\<Sum>s\<in>X. (\<Sum>i\<le>n. c i * s ^ i) * lbasis X s q) = (\<Sum>i\<le>n. c i * q ^ i)"
proof (induction n arbitrary: X c)
  case 0
  then have "card X = 1"
    by simp
  then obtain s where "X = {s}"
    by (rule card_1_singletonE)
  then show ?case
    by (simp add: lbasis_def)
next
  case (Suc n)
  then obtain a where a: "a \<in> X"
    by (metis card_eq_SucD insertI1)
  with Suc.prems have ca: "card (X - {a}) = Suc n" and fa: "finite (X - {a})"
    by simp_all
  obtain b where b: "\<And>z. (\<Sum>i\<le>Suc n. c i * z ^ i)
      = (z - a) * (\<Sum>i<Suc n. b i * z ^ i) + (\<Sum>i\<le>Suc n. c i * a ^ i)"
    using polyfun_linear_factor [of c "Suc n" a] by blast
  define P where "P z = (\<Sum>i\<le>Suc n. c i * z ^ i)" for z
  define R where "R z = (\<Sum>i\<le>n. b i * z ^ i)" for z
  have PR: "P z = (z - a) * R z + P a" for z
    using b [of z] by (simp add: P_def R_def lessThan_Suc_atMost)
  have IH: "(\<Sum>s\<in>X - {a}. R s * lbasis (X - {a}) s q) = R q"
    unfolding R_def using fa ca by (rule Suc.IH)
  have one: "(\<Sum>s\<in>X. lbasis X s q) = 1"
    using Suc.prems by (rule lbasis_sum_one)
  have "(\<Sum>s\<in>X. P s * lbasis X s q)
      = (\<Sum>s\<in>X. (s - a) * (R s * lbasis X s q) + P a * lbasis X s q)"
    by (intro sum.cong refl, subst PR) (simp add: algebra_simps)
  also have "\<dots> = (\<Sum>s\<in>X. (s - a) * (R s * lbasis X s q)) + P a * (\<Sum>s\<in>X. lbasis X s q)"
    by (simp add: sum.distrib sum_distrib_left)
  also have "\<dots> = (q - a) * R q + P a"
    using lbasis_sum_remove [OF Suc.prems(1) a, of R q] by (simp add: IH one)
  also have "\<dots> = P q"
    by (simp add: PR [of q])
  finally show ?case
    by (simp add: P_def)
qed

lemma lbasis_node:
  assumes "finite X" "s \<in> X" "s' \<in> X"
  shows "lbasis X s s' = (if s' = s then 1 else 0)"
proof (cases "s' = s")
  case True
  have "lbasis X s s = (\<Prod>t\<in>X - {s}. 1)"
    unfolding lbasis_def by (intro prod.cong refl) simp
  with True show ?thesis
    by simp
next
  case False
  have "(\<Prod>t\<in>X - {s}. (s' - t) / (s - t)) = 0"
    using assms False by (intro prod_zero) auto
  with False show ?thesis
    by (simp add: lbasis_def)
qed

section \<open>Facts about the search\<close>

lemma subset_poly_node:
  assumes d: "distinct (map share_x points)" and p: "p \<in> set points"
  shows "subset_poly points (of_int (share_x p)) = of_int (share_y p)"
proof -
  define X where "X = (\<lambda>p. rat_of_int (share_x p)) ` set points"
  have fin: "finite X"
    by (simp add: X_def)
  from d have inj: "inj_on share_x (set points)"
    by (simp add: distinct_map)
  have eq: "rat_of_int (share_x p) = rat_of_int (share_x p') \<longleftrightarrow> p' = p" if "p' \<in> set points" for p'
    using inj p that by (auto dest: inj_onD)
  have "subset_poly points (of_int (share_x p))
      = (\<Sum>p'\<in>set points. of_int (share_y p') * (if p' = p then 1 else 0))"
    unfolding subset_poly_def X_def [symmetric]
  proof (rule sum.cong [OF refl])
    fix p'
    assume p': "p' \<in> set points"
    then have "lbasis X (rat_of_int (share_x p')) (rat_of_int (share_x p))
        = (if rat_of_int (share_x p) = rat_of_int (share_x p') then 1 else 0)"
      using fin p by (intro lbasis_node) (auto simp: X_def)
    then show "rat_of_int (share_y p') * lbasis X (rat_of_int (share_x p')) (rat_of_int (share_x p))
        = rat_of_int (share_y p') * (if p' = p then 1 else 0)"
      using eq [OF p'] by simp
  qed
  also have "\<dots> = (\<Sum>p'\<in>set points. if p' = p then rat_of_int (share_y p') else 0)"
    by (intro sum.cong refl) simp
  also have "\<dots> = of_int (share_y p)"
    using p by (simp add: sum.delta)
  finally show ?thesis .
qed

lemma on_poly_member:
  "distinct (map share_x sub) \<Longrightarrow> p \<in> set sub \<Longrightarrow> on_poly sub p"
  by (simp add: on_poly_def subset_poly_node)

lemma verify_loop_eq:
  assumes d: "distinct (map share_x sub)"
  shows "i \<le> length shares \<Longrightarrow>
    fits = map (on_poly sub) (take i shares) @ replicate (length shares - i) False \<Longrightarrow>
    c = int (length (filter (on_poly sub) (take i shares))) \<Longrightarrow>
    verify_loop shares sub i fits c =
      Inr (map (on_poly sub) shares, int (length (filter (on_poly sub) shares)))"
proof (induction "length shares - i" arbitrary: i fits c)
  case 0
  then show ?case
    by (subst verify_loop.simps) simp
next
  case (Suc m)
  then have lt: "i < length shares" and m: "m = length shares - Suc i"
    by simp_all
  have tk: "take (Suc i) shares = take i shares @ [shares ! i]"
    using lt by (rule take_Suc_conv_app_nth)
  have rp: "replicate (length shares - i) False = False # replicate (length shares - Suc i) False"
    using lt by (simp add: Suc_diff_Suc flip: replicate_Suc)
  have ev: "lagrangeEval sub (share_x (shares ! i))
      = Inr (frac_of (subset_poly sub (of_int (share_x (shares ! i)))))"
    using d by (simp add: lagrangeEval_subset_poly)
  have test: "Fraction_isInteger (frac_of (subset_poly sub (of_int (share_x (shares ! i)))))
       \<and> frac_n (frac_of (subset_poly sub (of_int (share_x (shares ! i))))) = share_y (shares ! i)
     \<longleftrightarrow> on_poly sub (shares ! i)"
    by (simp only: frac_of_integer_iff on_poly_def)
  have upd: "fits[i := True] = map (on_poly sub) (take i shares) @ True # replicate (length shares - Suc i) False"
    using lt unfolding Suc.prems(2) rp
    by (simp add: list_update_append)
  show ?case
  proof (cases "on_poly sub (shares ! i)")
    case True
    have "verify_loop shares sub i fits c = verify_loop shares sub (Suc i) (fits[i := True]) (c + 1)"
      using lt True test by (subst verify_loop.simps) (auto simp: ev Let_def)
    also have "\<dots> = Inr (map (on_poly sub) shares, int (length (filter (on_poly sub) shares)))"
      using lt True Suc.prems(3) by (intro Suc.hyps(1) [OF m]) (simp_all add: upd tk)
    finally show ?thesis .
  next
    case False
    have "verify_loop shares sub i fits c = verify_loop shares sub (Suc i) fits c"
      using lt False test by (subst verify_loop.simps) (auto simp: ev Let_def)
    also have "\<dots> = Inr (map (on_poly sub) shares, int (length (filter (on_poly sub) shares)))"
      using lt False Suc.prems(3) by (intro Suc.hyps(1) [OF m]) (simp_all add: Suc.prems(2) rp tk)
    finally show ?thesis .
  qed
qed

lemma verify_loop_start:
  assumes "distinct (map share_x sub)"
  shows "verify_loop shares sub 0 (replicate (length shares) False) 0 =
      Inr (map (on_poly sub) shares, int (length (filter (on_poly sub) shares)))"
  by (rule verify_loop_eq [OF assms]) simp_all

lemma search_degenerate:
  "\<not> distinct (map share_x sub) \<Longrightarrow> search shares (sub # rest) b = search shares rest b"
proof -
  assume nd: "\<not> distinct (map share_x sub)"
  then have "card (set (map share_x sub)) \<noteq> length (map share_x sub)"
    using card_distinct [of "map share_x sub"] by blast
  then show ?thesis
    by (subst search.simps) (simp add: Let_def del: set_map length_map)
qed

lemma search_distinct:
  assumes "distinct (map share_x sub)"
  shows "search shares (sub # rest) b =
    (if int (length (filter (on_poly sub) shares)) > best_fitCount b then
       if int (length (filter (on_poly sub) shares)) = int (length shares) then
         Inr \<lparr>best_fitCount = int (length (filter (on_poly sub) shares)),
              best_subset = Some sub,
              best_secretFrac = Some (frac_of (subset_poly sub 0)),
              best_fits = Some (map (on_poly sub) shares)\<rparr>
       else search shares rest
         \<lparr>best_fitCount = int (length (filter (on_poly sub) shares)),
          best_subset = Some sub,
          best_secretFrac = Some (frac_of (subset_poly sub 0)),
          best_fits = Some (map (on_poly sub) shares)\<rparr>
     else search shares rest b)"
proof -
  have c: "card (set (map share_x sub)) = length (map share_x sub)"
    using assms by (rule distinct_card)
  show ?thesis
    using assms c
    by (subst search.simps)
      (simp add: Let_def lagrangeAtZero_subset_poly verify_loop_start del: set_map length_map)
qed

lemma search_inv:
  "\<exists>r. search shares subs b = Inr r
     \<and> best_fitCount b \<le> best_fitCount r
     \<and> (r = b \<or> (\<exists>sub\<in>set subs. explained_by shares sub r))
     \<and> (\<forall>sub\<in>set subs. distinct (map share_x sub) \<longrightarrow>
           int (length (filter (on_poly sub) shares)) \<le> best_fitCount r)"
proof (induction subs arbitrary: b)
  case Nil
  then show ?case by simp
next
  case (Cons sub rest)
  show ?case
  proof (cases "distinct (map share_x sub)")
    case False
    from Cons.IH [of b] obtain r where r: "search shares rest b = Inr r"
      "best_fitCount b \<le> best_fitCount r"
      "r = b \<or> (\<exists>sub\<in>set rest. explained_by shares sub r)"
      "\<forall>sub\<in>set rest. distinct (map share_x sub) \<longrightarrow>
           int (length (filter (on_poly sub) shares)) \<le> best_fitCount r"
      by blast
    have "search shares (sub # rest) b = Inr r"
      using False r(1) by (simp add: search_degenerate)
    with r False show ?thesis
      by auto
  next
    case True
    define c where "c = int (length (filter (on_poly sub) shares))"
    define b' where "b' = \<lparr>best_fitCount = c, best_subset = Some sub,
          best_secretFrac = Some (frac_of (subset_poly sub 0)),
          best_fits = Some (map (on_poly sub) shares)\<rparr>"
    have ex: "explained_by shares sub b'"
      using True by (simp add: explained_by_def b'_def c_def)
    have fc: "best_fitCount b' = c"
      by (simp add: b'_def)
    have step: "search shares (sub # rest) b =
        (if c > best_fitCount b then
           if c = int (length shares) then Inr b' else search shares rest b'
         else search shares rest b)"
      unfolding c_def b'_def by (rule search_distinct [OF True])
    have cle: "int (length (filter (on_poly s) shares)) \<le> int (length shares)" for s
      by simp
    show ?thesis
    proof (cases "c > best_fitCount b")
      case gt: True
      show ?thesis
      proof (cases "c = int (length shares)")
        case full: True
        have "search shares (sub # rest) b = Inr b'"
          using gt full step by simp
        moreover have "best_fitCount b \<le> best_fitCount b'"
          using gt fc by simp
        moreover have "\<exists>s\<in>set (sub # rest). explained_by shares s b'"
          using ex by auto
        moreover have "\<forall>s\<in>set (sub # rest). distinct (map share_x s) \<longrightarrow>
           int (length (filter (on_poly s) shares)) \<le> best_fitCount b'"
          using cle fc full by simp
        ultimately show ?thesis
          by blast
      next
        case part: False
        from Cons.IH [of b'] obtain r where r: "search shares rest b' = Inr r"
          "best_fitCount b' \<le> best_fitCount r"
          "r = b' \<or> (\<exists>sub\<in>set rest. explained_by shares sub r)"
          "\<forall>sub\<in>set rest. distinct (map share_x sub) \<longrightarrow>
             int (length (filter (on_poly sub) shares)) \<le> best_fitCount r"
          by blast
        have "search shares (sub # rest) b = Inr r"
          using gt part step r(1) by simp
        moreover have "best_fitCount b \<le> best_fitCount r"
          using gt fc r(2) by simp
        moreover have "\<exists>s\<in>set (sub # rest). explained_by shares s r"
          using ex r(3) by auto
        moreover have "\<forall>s\<in>set (sub # rest). distinct (map share_x s) \<longrightarrow>
           int (length (filter (on_poly s) shares)) \<le> best_fitCount r"
          using r(4) r(2) fc by (auto simp: c_def)
        ultimately show ?thesis
          by blast
      qed
    next
      case le: False
      from Cons.IH [of b] obtain r where r: "search shares rest b = Inr r"
        "best_fitCount b \<le> best_fitCount r"
        "r = b \<or> (\<exists>sub\<in>set rest. explained_by shares sub r)"
        "\<forall>sub\<in>set rest. distinct (map share_x sub) \<longrightarrow>
           int (length (filter (on_poly sub) shares)) \<le> best_fitCount r"
        by blast
      have "search shares (sub # rest) b = Inr r"
        using le step r(1) by simp
      moreover have "\<forall>s\<in>set (sub # rest). distinct (map share_x s) \<longrightarrow>
           int (length (filter (on_poly s) shares)) \<le> best_fitCount r"
        using r(4) r(2) le by (auto simp: c_def)
      ultimately show ?thesis
        using r(2,3) by auto
    qed
  qed
qed

lemma reconstruct_cases:
  assumes "2 \<le> k" "k \<le> int (length shares)"
  shows "(reconstruct shares k = Some (Inl ReconstructionFailed)
      \<and> (\<forall>sub\<in>set (k_subseqs (nat k) shares). \<not> distinct (map share_x sub)))
    \<or> (\<exists>r sub. reconstruct shares k = Some (Inr r)
      \<and> sub \<in> set (k_subseqs (nat k) shares) \<and> explained_by shares sub r
      \<and> (\<forall>s\<in>set (k_subseqs (nat k) shares). distinct (map share_x s) \<longrightarrow>
            int (length (filter (on_poly s) shares)) \<le> best_fitCount r))"
proof -
  define b0 where "b0 = \<lparr>best_fitCount = - 1, best_subset = None,
      best_secretFrac = None, best_fits = None\<rparr>"
  define subs where "subs = k_subseqs (nat k) shares"
  have comb: "combinations shares k = Some subs"
    using assms by (simp add: combinations_k_subseqs subs_def)
  from search_inv [of shares subs b0] obtain r where r: "search shares subs b0 = Inr r"
    "r = b0 \<or> (\<exists>sub\<in>set subs. explained_by shares sub r)"
    "\<forall>sub\<in>set subs. distinct (map share_x sub) \<longrightarrow>
           int (length (filter (on_poly sub) shares)) \<le> best_fitCount r"
    by blast
  have rec: "reconstruct shares k =
      (if best_subset r = None then Some (Inl ReconstructionFailed) else Some (Inr r))"
    using assms by (simp add: reconstruct_def comb r(1) b0_def [symmetric])
  show ?thesis
  proof (cases "r = b0")
    case True
    then have "best_fitCount r = - 1" and "best_subset r = None"
      by (simp_all add: b0_def)
    with r(3) rec show ?thesis
      unfolding subs_def by fastforce
  next
    case False
    with r(2) obtain sub where sub: "sub \<in> set subs" "explained_by shares sub r"
      by blast
    then have "best_subset r \<noteq> None"
      by (simp add: explained_by_def)
    with rec sub r(3) show ?thesis
      unfolding subs_def by auto
  qed
qed

lemma reconstruct_threshold:
  "k < 2 \<or> k > int (length shares) \<Longrightarrow> reconstruct shares k = Some (Inl InvalidThreshold)"
  by (auto simp: reconstruct_def)

lemma reconstruct_result:
  assumes "reconstruct shares k = Some (Inr r)"
  shows "2 \<le> k \<and> k \<le> int (length shares)
    \<and> (\<exists>sub\<in>set (k_subseqs (nat k) shares). explained_by shares sub r)"
proof -
  have k: "2 \<le> k \<and> k \<le> int (length shares)"
    using assms reconstruct_threshold [of k shares] by (cases "k < 2 \<or> k > int (length shares)") auto
  with reconstruct_cases [of k shares] assms show ?thesis
    by auto
qed

lemma fitCount_ge_threshold:
  assumes "reconstruct shares k = Some (Inr r)"
  shows "k \<le> best_fitCount r"
proof -
  from reconstruct_result [OF assms] obtain sub where k: "2 \<le> k"
    and sub: "sub \<in> set (k_subseqs (nat k) shares)" and ex: "explained_by shares sub r"
    by blast
  from sub have ss: "subseq sub shares" and len: "length sub = nat k"
    by (simp_all add: set_k_subseqs)
  from ex have d: "distinct (map share_x sub)"
    and fc: "best_fitCount r = int (length (filter (on_poly sub) shares))"
    by (simp_all add: explained_by_def)
  have "filter (on_poly sub) sub = sub"
    using d by (simp add: on_poly_member)
  moreover have "subseq (filter (on_poly sub) sub) (filter (on_poly sub) shares)"
    using ss by (rule subseq_filter)
  ultimately have "length sub \<le> length (filter (on_poly sub) shares)"
    by (metis list_emb_length)
  with len fc k show ?thesis
    by simp
qed

section \<open>Facts about the parser\<close>

lemma parse_entries_xs:
  "parse_entries data = Inr shares \<Longrightarrow>
   map share_x shares = map BigInt_of_decimal (filter digits_only (map fst data))"
proof (induction data arbitrary: shares)
  case Nil
  then show ?case by simp
next
  case (Cons a data)
  obtain k entry where a: "a = (k, entry)"
    by (cases a)
  have nk: "\<not> digits_only ''keys''"
    by (simp add: digits_only_def is_digit_def)
  show ?case
  proof (cases "k = ''keys''")
    case True
    with Cons.prems have "parse_entries data = Inr shares"
      by (simp add: a)
    from Cons.IH [OF this] True nk show ?thesis
      by (simp add: a)
  next
    case nkeys: False
    show ?thesis
    proof (cases "digits_only k")
      case False
      with Cons.prems nkeys have "parse_entries data = Inr shares"
        by (simp add: a)
      from Cons.IH [OF this] False show ?thesis
        by (simp add: a)
    next
      case True
      with Cons.prems nkeys obtain rest where rest: "parse_entries data = Inr rest"
        and sh: "map share_x shares = BigInt_of_decimal k # map share_x rest"
        by (auto simp: a split: json_value.splits sum.splits)
      from Cons.IH [OF rest] True sh show ?thesis
        by (simp add: a)
    qed
  qed
qed

lemma parseInput_distinct:
  assumes "parseInput data = Inr p"
    and "distinct (map BigInt_of_decimal (filter digits_only (map fst data)))"
  shows "distinct (map share_x (parsed_shares p))"
proof -
  from assms(1) obtain shares where sh: "parse_entries data = Inr shares"
    and p: "parsed_shares p = sort_key share_x shares"
    by (auto simp: parseInput_def split: option.splits json_value.splits sum.splits)
  have "mset (map share_x (sort_key share_x shares)) = mset (map share_x shares)"
    by simp
  then have "distinct (map share_x (sort_key share_x shares)) \<longleftrightarrow> distinct (map share_x shares)"
    by (rule mset_eq_imp_distinct_iff)
  with parse_entries_xs [OF sh] assms(2) p show ?thesis
    by simp
qed

lemma reconstruct_distinct_succeeds:
  assumes "distinct (map share_x shares)" "2 \<le> k" "k \<le> int (length shares)"
  shows "\<exists>r. reconstruct shares k = Some (Inr r)"
proof -
  from assms have le: "nat k \<le> length shares"
    by simp
  have "take (nat k) shares \<in> set (k_subseqs (nat k) shares)"
    using le by (simp add: set_k_subseqs prefix_imp_subseq take_is_prefix)
  moreover have "distinct (map share_x (take (nat k) shares))"
    using assms(1) by (simp add: take_map [symmetric] del: take_map)
  ultimately show ?thesis
    using reconstruct_cases [OF assms(2,3)] by blast
qed

section \<open>Shares of a polynomial\<close>

lemma poly_eval_sum:
  "poly_eval cs v = (\<Sum>i<length cs. cs ! i * v ^ i)"
  by (simp add: poly_eval_def interv_sum_list_conv_sum_set_nat atLeast0LessThan)

lemma subset_poly_polynomial:
  assumes d: "distinct (map share_x sub)" and len: "length sub = length cs" and ne: "cs \<noteq> []"
    and y: "\<forall>p\<in>set sub. share_y p = poly_eval cs (share_x p)"
  shows "subset_poly sub q = (\<Sum>i<length cs. of_int (cs ! i) * q ^ i)"
proof -
  from ne obtain n where n: "length cs = Suc n"
    by (cases cs) auto
  define X where "X = (\<lambda>p. rat_of_int (share_x p)) ` set sub"
  define c where "c i = rat_of_int (cs ! i)" for i
  from d have inj0: "inj_on share_x (set sub)" and ds: "distinct sub"
    by (simp_all add: distinct_map)
  have inj: "inj_on (\<lambda>p. rat_of_int (share_x p)) (set sub)"
    using inj0 by (auto simp: inj_on_def)
  have card: "card X = Suc n"
    unfolding X_def using inj ds len n by (simp add: card_image distinct_card)
  have fin: "finite X"
    by (simp add: X_def)
  have "subset_poly sub q
      = (\<Sum>p\<in>set sub. (\<Sum>i\<le>n. c i * (rat_of_int (share_x p)) ^ i)
            * lbasis X (rat_of_int (share_x p)) q)"
    unfolding subset_poly_def X_def [symmetric]
  proof (rule sum.cong [OF refl])
    fix p
    assume "p \<in> set sub"
    with y have "share_y p = (\<Sum>i<Suc n. cs ! i * share_x p ^ i)"
      by (simp add: poly_eval_sum n)
    then have "rat_of_int (share_y p) = (\<Sum>i\<le>n. c i * (rat_of_int (share_x p)) ^ i)"
      by (simp add: c_def lessThan_Suc_atMost)
    then show "rat_of_int (share_y p) * lbasis X (rat_of_int (share_x p)) q
        = (\<Sum>i\<le>n. c i * (rat_of_int (share_x p)) ^ i) * lbasis X (rat_of_int (share_x p)) q"
      by simp
  qed
  also have "\<dots> = (\<Sum>s\<in>X. (\<Sum>i\<le>n. c i * s ^ i) * lbasis X s q)"
    unfolding X_def using inj by (simp add: sum.reindex)
  also have "\<dots> = (\<Sum>i\<le>n. c i * q ^ i)"
    using fin card by (rule lagrange_exact)
  finally show ?thesis
    by (simp add: n c_def lessThan_Suc_atMost)
qed

lemma on_poly_polynomial:
  assumes "distinct (map share_x sub)" "length sub = length cs" "cs \<noteq> []"
    and "\<forall>p\<in>set sub. share_y p = poly_eval cs (share_x p)"
  shows "on_poly sub p \<longleftrightarrow> share_y p = poly_eval cs (share_x p)"
proof -
  have "subset_poly sub (of_int (share_x p)) = of_int (poly_eval cs (share_x p))"
    by (simp add: subset_poly_polynomial [OF assms] poly_eval_sum)
  then show ?thesis
    by (auto simp: on_poly_def)
qed

lemma poly_eval_zero: "cs \<noteq> [] \<Longrightarrow> poly_eval cs 0 = cs ! 0"
proof -
  assume "cs \<noteq> []"
  then obtain n where n: "length cs = Suc n"
    by (cases cs) auto
  have "poly_eval cs 0 = (\<Sum>i\<le>n. cs ! i * 0 ^ i)"
    by (simp add: poly_eval_sum n lessThan_Suc_atMost)
  also have "\<dots> = (\<Sum>i\<le>n. if i = 0 then cs ! 0 else 0)"
    by (intro sum.cong refl) auto
  also have "\<dots> = cs ! 0"
    by (simp add: sum.delta)
  finally show ?thesis .
qed

lemma length_poly_shares: "length (poly_shares cs n) = n"
  by (simp add: poly_shares_def)

lemma share_x_poly_shares: "map share_x (poly_shares cs n) = map int [1..<Suc n]"
  by (simp add: poly_shares_def point_def comp_def)

lemma distinct_poly_shares: "distinct (map share_x (poly_shares cs n))"
  unfolding share_x_poly_shares by (simp add: distinct_map inj_on_def)

lemma share_y_poly_shares:
  "p \<in> set (poly_shares cs n) \<Longrightarrow> share_y p = poly_eval cs (share_x p)"
  by (auto simp: poly_shares_def point_def)

lemma reconstruct_generated:
  assumes k2: "2 \<le> k" and kn: "k \<le> int n" and len: "length cs = nat k"
  shows "reconstruct (poly_shares cs n) k =
    Some (Inr \<lparr>best_fitCount = int n,
      best_subset = Some (take (nat k) (poly_shares cs n)),
      best_secretFrac = Some \<lparr>frac_n = cs ! 0, frac_d = 1\<rparr>,
      best_fits = Some (replicate n True)\<rparr>)"
proof -
  define shares where "shares = poly_shares cs n"
  define sub where "sub = take (nat k) shares"
  have n: "length shares = n"
    by (simp add: shares_def length_poly_shares)
  have le: "nat k \<le> length shares"
    using kn n by linarith
  have ne: "cs \<noteq> []"
    using k2 len by auto
  have lsub: "length sub = length cs"
    using le len by (simp add: sub_def)
  have dsub: "distinct (map share_x sub)"
    unfolding sub_def shares_def using distinct_poly_shares [of cs n]
    by (simp add: take_map [symmetric] del: take_map)
  have ys: "\<forall>p\<in>set shares. share_y p = poly_eval cs (share_x p)"
    by (simp add: shares_def share_y_poly_shares)
  then have ysub: "\<forall>p\<in>set sub. share_y p = poly_eval cs (share_x p)"
    unfolding sub_def by (auto dest: in_set_takeD)
  have all: "\<forall>p\<in>set shares. on_poly sub p"
    using ys by (simp add: on_poly_polynomial [OF dsub lsub ne ysub])
  then have flt: "filter (on_poly sub) shares = shares"
    by simp
  have "map (on_poly sub) shares = map (\<lambda>p. True) shares"
    using all by (intro map_cong refl) simp
  then have mp: "map (on_poly sub) shares = replicate n True"
    using n by (simp add: map_replicate_const)
  have "subset_poly sub 0 = (\<Sum>i<length cs. rat_of_int (cs ! i) * 0 ^ i)"
    by (rule subset_poly_polynomial [OF dsub lsub ne ysub])
  also have "\<dots> = rat_of_int (\<Sum>i<length cs. cs ! i * 0 ^ i)"
    by simp
  also have "\<dots> = rat_of_int (poly_eval cs 0)"
    by (simp only: poly_eval_sum)
  also have "\<dots> = rat_of_int (cs ! 0)"
    by (simp only: poly_eval_zero [OF ne])
  finally have secret: "frac_of (subset_poly sub 0) = \<lparr>frac_n = cs ! 0, frac_d = 1\<rparr>"
    by (simp add: frac_of_int)
  have subs: "k_subseqs (nat k) shares = sub # tl (k_subseqs (nat k) shares)"
  proof -
    have "k_subseqs (nat k) shares \<noteq> []"
      using le by (simp add: k_subseqs_empty_iff)
    moreover have "hd (k_subseqs (nat k) shares) = sub"
      unfolding sub_def using le by (rule hd_k_subseqs)
    ultimately show ?thesis
      by (cases "k_subseqs (nat k) shares") simp_all
  qed
  have comb: "combinations shares k = Some (sub # tl (k_subseqs (nat k) shares))"
    using k2 kn n subs by (simp add: combinations_k_subseqs)
  have srch: "search shares (sub # tl (k_subseqs (nat k) shares))
        \<lparr>best_fitCount = - 1, best_subset = None, best_secretFrac = None, best_fits = None\<rparr>
      = Inr \<lparr>best_fitCount = int n, best_subset = Some sub,
          best_secretFrac = Some \<lparr>frac_n = cs ! 0, frac_d = 1\<rparr>,
          best_fits = Some (replicate n True)\<rparr>"
    by (simp add: search_distinct [OF dsub] flt mp secret n)
  show ?thesis
    using k2 kn n unfolding shares_def [symmetric] sub_def [symmetric]
    by (simp add: reconstruct_def comb srch)
qed

section \<open>One altered share among four\<close>

lemma length_filter_map:
  "length (filter P xs) = length (filter (\<lambda>b. b) (map P xs))"
  by (simp add: filter_map comp_def)

lemma share_x_point: "share_x (point a b) = a"
  by (simp add: point_def)

lemma share_y_point: "share_y (point a b) = b"
  by (simp add: point_def)

lemma on_poly_lag_sum:
  "distinct (map share_x sub) \<Longrightarrow>
   on_poly sub p \<longleftrightarrow> lag_sum sub (of_int (share_x p)) = of_int (share_y p)"
  by (simp add: on_poly_def lag_sum_subset_poly)

lemma corrupted_12_4:
  "on_poly [point 1 4, point 2 7, point 4 y'] (point 3 14) \<longleftrightarrow> y' = 25"
proof -
  have d: "distinct (map share_x [point 1 4, point 2 7, point 4 y'])"
    by (simp add: point_def)
  have L: "lag_sum [point 1 4, point 2 7, point 4 y'] 3 = (of_int y' + 17) / 3"
    by (simp add: lag_sum_def lag_num_def lag_den_def point_def)
  have "on_poly [point 1 4, point 2 7, point 4 y'] (point 3 14)
      \<longleftrightarrow> lag_sum [point 1 4, point 2 7, point 4 y'] 3 = 14"
    by (simp add: on_poly_lag_sum [OF d] share_x_point share_y_point)
  also have "\<dots> \<longleftrightarrow> (rat_of_int y' + 17) / 3 = 14"
    by (simp only: L)
  also have "\<dots> \<longleftrightarrow> rat_of_int y' = rat_of_int 25"
    by auto
  also have "\<dots> \<longleftrightarrow> y' = 25"
    by (rule of_int_eq_iff)
  finally show ?thesis .
qed

lemma corrupted_13_4:
  "on_poly [point 1 4, point 3 14, point 4 y'] (point 2 7) \<longleftrightarrow> y' = 25"
proof -
  have d: "distinct (map share_x [point 1 4, point 3 14, point 4 y'])"
    by (simp add: point_def)
  have L: "lag_sum [point 1 4, point 3 14, point 4 y'] 2 = (46 - of_int y') / 3"
    by (simp add: lag_sum_def lag_num_def lag_den_def point_def)
  have "on_poly [point 1 4, point 3 14, point 4 y'] (point 2 7)
      \<longleftrightarrow> lag_sum [point 1 4, point 3 14, point 4 y'] 2 = 7"
    by (simp add: on_poly_lag_sum [OF d] share_x_point share_y_point)
  also have "\<dots> \<longleftrightarrow> (46 - rat_of_int y') / 3 = 7"
    by (simp only: L)
  also have "\<dots> \<longleftrightarrow> rat_of_int y' = rat_of_int 25"
    by auto
  also have "\<dots> \<longleftrightarrow> y' = 25"
    by (rule of_int_eq_iff)
  finally show ?thesis .
qed

lemma corrupted_23_4:
  "on_poly [point 2 7, point 3 14, point 4 y'] (point 1 4) \<longleftrightarrow> y' = 25"
proof -
  have d: "distinct (map share_x [point 2 7, point 3 14, point 4 y'])"
    by (simp add: point_def)
  have L: "lag_sum [point 2 7, point 3 14, point 4 y'] 1 = of_int y' - 21"
    by (simp add: lag_sum_def lag_num_def lag_den_def point_def)
  have "on_poly [point 2 7, point 3 14, point 4 y'] (point 1 4)
      \<longleftrightarrow> lag_sum [point 2 7, point 3 14, point 4 y'] 1 = 4"
    by (simp add: on_poly_lag_sum [OF d] share_x_point share_y_point)
  also have "\<dots> \<longleftrightarrow> rat_of_int y' - 21 = 4"
    by (simp only: L)
  also have "\<dots> \<longleftrightarrow> rat_of_int y' = rat_of_int 25"
    by auto
  also have "\<dots> \<longleftrightarrow> y' = 25"
    by (rule of_int_eq_iff)
  finally show ?thesis .
qed

lemma corrupted_123:
  "on_poly [point 1 4, point 2 7, point 3 14] (point 4 y') \<longleftrightarrow> y' = 25"
proof -
  have d: "distinct (map share_x [point 1 4, point 2 7, point 3 14])"
    by (simp add: point_def)
  have L: "lag_sum [point 1 4, point 2 7, point 3 14] 4 = rat_of_int 25"
    by (simp add: lag_sum_def lag_num_def lag_den_def point_def)
  have "on_poly [point 1 4, point 2 7, point 3 14] (point 4 y')
      \<longleftrightarrow> lag_sum [point 1 4, point 2 7, point 3 14] 4 = rat_of_int y'"
    by (simp add: on_poly_lag_sum [OF d] share_x_point share_y_point)
  also have "\<dots> \<longleftrightarrow> rat_of_int 25 = rat_of_int y'"
    by (simp only: L)
  also have "\<dots> \<longleftrightarrow> y' = 25"
    by (auto simp only: of_int_eq_iff)
  finally show ?thesis .
qed

section \<open>The combination generator meets its contract\<close>

text \<open>
  Claim C5. For a sequence of \<open>n\<close> items and \<open>1 \<le> k \<le> n\<close> the generator finishes and yields
  the items at the index lists \<open>jss\<close>, where \<open>jss\<close> has exactly \<open>n choose k\<close> members, its members
  are exactly the increasing index lists of length \<open>k\<close> (the sub-sequences of \<open>[0..<n]\<close>), it
  is strictly increasing in the lexicographic order (so it has no duplicates), and every
  yielded list is a sub-sequence of the items of size \<open>k\<close>. For \<open>k > n\<close> the generator
  yields nothing and does not fail.
\<close>

theorem C5_combinations:
  "(1 \<le> k \<and> k \<le> int (length arr) \<longrightarrow>
      (\<exists>jss. combinations arr k = Some (map (map (\<lambda>i. arr ! i)) jss)
         \<and> length jss = (length arr choose nat k)
         \<and> set jss = {js. subseq js [0..<length arr] \<and> length js = nat k}
         \<and> sorted_wrt lex_less jss \<and> distinct jss
         \<and> (\<forall>js\<in>set jss. subseq (map (\<lambda>i. arr ! i) js) arr
               \<and> length (map (\<lambda>i. arr ! i) js) = nat k)))
   \<and> (int (length arr) < k \<longrightarrow> combinations arr k = Some [])"
proof (intro conjI impI)
  assume "int (length arr) < k"
  then show "combinations arr k = Some []"
    by (simp add: combinations_def)
next
  assume k: "1 \<le> k \<and> k \<le> int (length arr)"
  define n where "n = length arr"
  define jss where "jss = k_subseqs (nat k) [0..<n]"
  have arr: "map (\<lambda>i. arr ! i) [0..<n] = arr"
    by (simp add: n_def map_nth)
  have "combinations arr k = Some (k_subseqs (nat k) (map (\<lambda>i. arr ! i) [0..<n]))"
    using k by (simp add: combinations_k_subseqs arr)
  then have a: "combinations arr k = Some (map (map (\<lambda>i. arr ! i)) jss)"
    by (simp add: jss_def k_subseqs_map)
  have b: "length jss = (length arr choose nat k)"
    by (simp add: jss_def length_k_subseqs n_def)
  have c: "set jss = {js. subseq js [0..<length arr] \<and> length js = nat k}"
    by (simp add: jss_def set_k_subseqs n_def)
  have d: "sorted_wrt lex_less jss"
    unfolding jss_def by (rule lex_less_k_subseqs) (simp add: sorted_wrt_upt)
  then have e: "distinct jss"
    by (rule sorted_wrt_lex_less_distinct)
  have f: "\<forall>js\<in>set jss. subseq (map (\<lambda>i. arr ! i) js) arr
               \<and> length (map (\<lambda>i. arr ! i) js) = nat k"
  proof
    fix js
    assume "js \<in> set jss"
    with c have "subseq js [0..<n]" and len: "length js = nat k"
      by (simp_all add: n_def)
    then have "subseq (map (\<lambda>i. arr ! i) js) (map (\<lambda>i. arr ! i) [0..<n])"
      by (intro subseq_map)
    with arr len show "subseq (map (\<lambda>i. arr ! i) js) arr
               \<and> length (map (\<lambda>i. arr ! i) js) = nat k"
      by simp
  qed
  from a b c d e f
  show "\<exists>jss. combinations arr k = Some (map (map (\<lambda>i. arr ! i)) jss)
         \<and> length jss = (length arr choose nat k)
         \<and> set jss = {js. subseq js [0..<length arr] \<and> length js = nat k}
         \<and> sorted_wrt lex_less jss \<and> distinct jss
         \<and> (\<forall>js\<in>set jss. subseq (map (\<lambda>i. arr ! i) js) arr
               \<and> length (map (\<lambda>i. arr ! i) js) = nat k)"
    by blast
qed

theorem C5_combinations_witness:
  "(1::int) \<le> 2 \<and> (2::int) \<le> int (length [10, 20, 30 :: int])
   \<and> (\<exists>jss. combinations [10, 20, 30 :: int] 2 = Some (map (map (\<lambda>i. [10, 20, 30] ! i)) jss)
         \<and> length jss = (length [10, 20, 30 :: int] choose nat 2)
         \<and> set jss = {js. subseq js [0..<length [10, 20, 30 :: int]] \<and> length js = nat 2}
         \<and> sorted_wrt lex_less jss \<and> distinct jss
         \<and> (\<forall>js\<in>set jss. subseq (map (\<lambda>i. [10, 20, 30 :: int] ! i) js) [10, 20, 30]
               \<and> length (map (\<lambda>i. [10, 20, 30 :: int] ! i) js) = nat 2))
   \<and> combinations [10, 20, 30 :: int] 2 = Some [ [10, 20], [10, 30], [20, 30]]
   \<and> int (length [10, 20, 30 :: int]) < 4
   \<and> combinations [10, 20, 30 :: int] 4 = Some []"
proof -
  have h: "(1::int) \<le> 2 \<and> (2::int) \<le> int (length [10, 20, 30 :: int])"
    by simp
  have h': "int (length [10, 20, 30 :: int]) < 4"
    by simp
  have v: "combinations [10, 20, 30 :: int] 2 = Some [ [10, 20], [10, 30], [20, 30]]"
    by code_simp
  from h h' v C5_combinations [of 2 "[10, 20, 30 :: int]"] C5_combinations [of 4 "[10, 20, 30 :: int]"]
  show ?thesis
    by blast
qed

section \<open>The interpolator does not depend on the order of the shares\<close>

text \<open>
  Claim C6. For shares with pairwise distinct \<open>x\<close>, \<open>lagrangeAtZero\<close> returns a fraction, and it
  returns the same fraction for every permutation of the shares.
\<close>

theorem C6_valueAtZero_order_invariant:
  assumes "distinct (map share_x points)" and "mset points' = mset points"
  shows "lagrangeAtZero points' = lagrangeAtZero points \<and> (\<exists>f. lagrangeAtZero points = Inr f)"
proof -
  from assms(2) have s: "set points' = set points"
    by (rule mset_eq_setD)
  from assms(2) have "mset (map share_x points') = mset (map share_x points)"
    by simp
  then have "distinct (map share_x points') \<longleftrightarrow> distinct (map share_x points)"
    by (rule mset_eq_imp_distinct_iff)
  with assms(1) have d: "distinct (map share_x points')"
    by simp
  show ?thesis
    using assms(1) d by (simp add: lagrangeAtZero_subset_poly subset_poly_cong [OF s])
qed

theorem C6_valueAtZero_order_invariant_witness:
  "distinct (map share_x [point 1 4, point 2 7, point 3 14])
   \<and> mset [point 3 14, point 1 4, point 2 7] = mset [point 1 4, point 2 7, point 3 14]
   \<and> lagrangeAtZero [point 3 14, point 1 4, point 2 7]
       = lagrangeAtZero [point 1 4, point 2 7, point 3 14]
   \<and> (\<exists>f. lagrangeAtZero [point 1 4, point 2 7, point 3 14] = Inr f)"
proof -
  have d: "distinct (map share_x [point 1 4, point 2 7, point 3 14])"
    by (simp add: point_def)
  have m: "mset [point 3 14, point 1 4, point 2 7] = mset [point 1 4, point 2 7, point 3 14]"
    by (simp add: add_mset_commute)
  from d m C6_valueAtZero_order_invariant [OF d m] show ?thesis
    by blast
qed

section \<open>The threshold check\<close>

text \<open>
  Claim C7. \<open>reconstruct\<close> fails with \<open>InvalidThreshold\<close> whenever \<open>k < 2\<close>, in particular for
  \<open>k = 1\<close>, and whenever \<open>k\<close> exceeds the number of supplied shares; it returns no result then.
\<close>

theorem C7_invalid_threshold:
  "(k < 2 \<longrightarrow> reconstruct shares k = Some (Inl InvalidThreshold))
   \<and> (k > int (length shares) \<longrightarrow> reconstruct shares k = Some (Inl InvalidThreshold))
   \<and> reconstruct shares 1 = Some (Inl InvalidThreshold)"
  by (simp add: reconstruct_threshold)

theorem C7_invalid_threshold_witness:
  "(1::int) < 2 \<and> reconstruct [point 1 5] 1 = Some (Inl InvalidThreshold)
   \<and> 3 > int (length [point 1 4, point 2 7])
   \<and> reconstruct [point 1 4, point 2 7] 3 = Some (Inl InvalidThreshold)"
proof -
  have a: "(1::int) < 2" and b: "3 > int (length [point 1 4, point 2 7])"
    by simp_all
  from a b C7_invalid_threshold [of 1 "[point 1 5]"]
    C7_invalid_threshold [of 3 "[point 1 4, point 2 7]"]
  show ?thesis
    by blast
qed

section \<open>Degenerate subsets\<close>

text \<open>
  Claim C8. A candidate subset with two equal \<open>x\<close> is skipped: the search goes on with the
  next subset and the candidate unchanged. The subset of a returned result has pairwise
  distinct \<open>x\<close>. The call itself ends, and it ends with a result, with \<open>InvalidThreshold\<close> or
  with \<open>ReconstructionFailed\<close>: never with an error of the interpolation.
\<close>

theorem C8_degenerate_subset_skipped:
  "(\<not> distinct (map share_x sub) \<longrightarrow> search shares (sub # rest) b = search shares rest b)
   \<and> (reconstruct shares k = Some (Inr r) \<longrightarrow>
        (\<exists>s. best_subset r = Some s \<and> distinct (map share_x s)))
   \<and> (reconstruct shares k = Some (Inl InvalidThreshold)
        \<or> reconstruct shares k = Some (Inl ReconstructionFailed)
        \<or> (\<exists>r'. reconstruct shares k = Some (Inr r')))"
proof (intro conjI impI)
  assume "\<not> distinct (map share_x sub)"
  then show "search shares (sub # rest) b = search shares rest b"
    by (rule search_degenerate)
next
  assume "reconstruct shares k = Some (Inr r)"
  from reconstruct_result [OF this] show "\<exists>s. best_subset r = Some s \<and> distinct (map share_x s)"
    by (auto simp: explained_by_def)
next
  show "reconstruct shares k = Some (Inl InvalidThreshold)
        \<or> reconstruct shares k = Some (Inl ReconstructionFailed)
        \<or> (\<exists>r'. reconstruct shares k = Some (Inr r'))"
  proof (cases "k < 2 \<or> k > int (length shares)")
    case True
    then show ?thesis
      by (simp add: reconstruct_threshold)
  next
    case False
    then have "2 \<le> k" "k \<le> int (length shares)"
      by simp_all
    from reconstruct_cases [OF this] show ?thesis
      by blast
  qed
qed

theorem C8_degenerate_subset_skipped_witness:
  "\<not> distinct (map share_x [point 1 4, point 1 9, point 2 7])
   \<and> search [point 1 4, point 1 9, point 2 7, point 3 14]
        ([point 1 4, point 1 9, point 2 7] # [ [point 1 4, point 2 7, point 3 14]])
        \<lparr>best_fitCount = - 1, best_subset = None, best_secretFrac = None, best_fits = None\<rparr>
      = search [point 1 4, point 1 9, point 2 7, point 3 14]
        [ [point 1 4, point 2 7, point 3 14]]
        \<lparr>best_fitCount = - 1, best_subset = None, best_secretFrac = None, best_fits = None\<rparr>
   \<and> reconstruct [point 1 4, point 1 9, point 2 7, point 3 14] 3 =
       Some (Inr \<lparr>best_fitCount = 3, best_subset = Some [point 1 4, point 2 7, point 3 14],
         best_secretFrac = Some \<lparr>frac_n = 5, frac_d = 1\<rparr>,
         best_fits = Some [True, False, True, True]\<rparr>)
   \<and> (\<exists>s. best_subset \<lparr>best_fitCount = 3, best_subset = Some [point 1 4, point 2 7, point 3 14],
         best_secretFrac = Some \<lparr>frac_n = 5, frac_d = 1\<rparr>,
         best_fits = Some [True, False, True, True]\<rparr> = Some s \<and> distinct (map share_x s))"
proof -
  have a: "\<not> distinct (map share_x [point 1 4, point 1 9, point 2 7])"
    by (simp add: point_def)
  have b: "reconstruct [point 1 4, point 1 9, point 2 7, point 3 14] 3 =
       Some (Inr \<lparr>best_fitCount = 3, best_subset = Some [point 1 4, point 2 7, point 3 14],
         best_secretFrac = Some \<lparr>frac_n = 5, frac_d = 1\<rparr>,
         best_fits = Some [True, False, True, True]\<rparr>)"
    by code_simp
  from a b
    C8_degenerate_subset_skipped [of "[point 1 4, point 1 9, point 2 7]"
      "[point 1 4, point 1 9, point 2 7, point 3 14]" "[ [point 1 4, point 2 7, point 3 14]]"
      "\<lparr>best_fitCount = - 1, best_subset = None, best_secretFrac = None, best_fits = None\<rparr>"
      3 "\<lparr>best_fitCount = 3, best_subset = Some [point 1 4, point 2 7, point 3 14],
         best_secretFrac = Some \<lparr>frac_n = 5, frac_d = 1\<rparr>,
         best_fits = Some [True, False, True, True]\<rparr>"]
  show ?thesis
    by blast
qed

section \<open>Exactness on unmodified shares\<close>

text \<open>
  Claim C1 says that \<open>reconstruct\<close> succeeds on the shares of every integer polynomial of degree
  \<open>k - 1\<close> at \<open>x = 1..n\<close>. For \<open>k = 1\<close> (a constant polynomial) and one share, the first guard of
  \<^verbatim>\<open>main\<close> rejects the threshold; for \<open>k = 3\<close> and \<open>n = 2\<close> shares of \<open>2x\<^sup>2 - 3x + 5\<close> the second
  guard does.
\<close>

theorem C1_exactness_counterexample:
  "length [5 :: int] = nat 1
   \<and> poly_shares [5] 1 = [point 1 5]
   \<and> reconstruct (poly_shares [5] 1) 1 = Some (Inl InvalidThreshold)
   \<and> length [5, - 3, 2 :: int] = nat 3
   \<and> poly_shares [5, - 3, 2] 2 = [point 1 4, point 2 7]
   \<and> reconstruct (poly_shares [5, - 3, 2] 2) 3 = Some (Inl InvalidThreshold)"
proof -
  have a: "poly_shares [5] 1 = [point 1 5]"
    by (simp add: poly_shares_def poly_eval_def)
  have b: "poly_shares [5, - 3, 2] 2 = [point 1 4, point 2 7]"
    by code_simp
  show ?thesis
    unfolding a b by (simp add: reconstruct_def)
qed

text \<open>
  Claim C1, amended. For \<open>2 \<le> k \<le> n\<close> and an integer polynomial with the \<open>k\<close> coefficients
  \<open>cs\<close> (degree at most \<open>k - 1\<close>), \<open>reconstruct\<close> on its unmodified shares at \<open>x = 1..n\<close> returns a
  result: the secret is the integer fraction of the constant term \<open>cs ! 0\<close>, the fit count
  is \<open>n\<close> and every share is marked as fitting.
\<close>

theorem C1_exactness:
  "2 \<le> k \<and> k \<le> int n \<and> length cs = nat k \<longrightarrow>
     (\<exists>r. reconstruct (poly_shares cs n) k = Some (Inr r)
        \<and> best_secretFrac r = Some \<lparr>frac_n = cs ! 0, frac_d = 1\<rparr>
        \<and> best_fitCount r = int n
        \<and> best_fits r = Some (replicate n True))
     \<and> poly_eval cs 0 = cs ! 0"
proof
  assume a: "2 \<le> k \<and> k \<le> int n \<and> length cs = nat k"
  then have "cs \<noteq> []"
    by auto
  then have "poly_eval cs 0 = cs ! 0"
    by (rule poly_eval_zero)
  moreover from a have "reconstruct (poly_shares cs n) k =
    Some (Inr \<lparr>best_fitCount = int n,
      best_subset = Some (take (nat k) (poly_shares cs n)),
      best_secretFrac = Some \<lparr>frac_n = cs ! 0, frac_d = 1\<rparr>,
      best_fits = Some (replicate n True)\<rparr>)"
    by (intro reconstruct_generated) simp_all
  ultimately show "(\<exists>r. reconstruct (poly_shares cs n) k = Some (Inr r)
        \<and> best_secretFrac r = Some \<lparr>frac_n = cs ! 0, frac_d = 1\<rparr>
        \<and> best_fitCount r = int n
        \<and> best_fits r = Some (replicate n True))
     \<and> poly_eval cs 0 = cs ! 0"
    by simp
qed

theorem C1_exactness_witness:
  "(2::int) \<le> 3 \<and> (3::int) \<le> int 4 \<and> length [5, - 3, 2 :: int] = nat 3
   \<and> poly_shares [5, - 3, 2] 4 = [point 1 4, point 2 7, point 3 14, point 4 25]
   \<and> (\<exists>r. reconstruct (poly_shares [5, - 3, 2] 4) 3 = Some (Inr r)
        \<and> best_secretFrac r = Some \<lparr>frac_n = [5, - 3, 2] ! 0, frac_d = 1\<rparr>
        \<and> best_fitCount r = int 4
        \<and> best_fits r = Some (replicate 4 True))"
proof -
  have a: "(2::int) \<le> 3 \<and> (3::int) \<le> int 4 \<and> length [5, - 3, 2 :: int] = nat 3"
    by simp
  have b: "poly_shares [5, - 3, 2] 4 = [point 1 4, point 2 7, point 3 14, point 4 25]"
    by code_simp
  from a b C1_exactness [of 3 4 "[5, - 3, 2]"] show ?thesis
    by blast
qed

section \<open>Shares of the parser and the failure branch\<close>

text \<open>
  Claim C10 says that the shares of the parser have pairwise distinct \<open>x\<close>, so that the
  failure branch of the reconstruction cannot be reached from a parsed input with
  \<open>2 \<le> k \<le>\<close> the number of shares. The keys \<open>"1"\<close> and \<open>"01"\<close> are two keys of one object, both
  pass the test for digits, and both give \<open>x = 1\<close>: the two shares form the only subset for
  \<open>k = 2\<close>, it is skipped, and \<^verbatim>\<open>main\<close> fails with \<open>ReconstructionFailed\<close>.
\<close>

theorem C10_parser_counterexample:
  "distinct (map fst [(''1'', JEntry ''10'' ''4''), (''keys'', JKeys 2 2), (''01'', JEntry ''10'' ''7'')])
   \<and> parseInput [(''1'', JEntry ''10'' ''4''), (''keys'', JKeys 2 2), (''01'', JEntry ''10'' ''7'')]
      = Inr \<lparr>parsed_n = 2, parsed_k = 2, parsed_shares =
          [\<lparr>share_x = 1, share_y = 4, share_base = 10, share_raw = ''4'', share_label = ''1''\<rparr>,
           \<lparr>share_x = 1, share_y = 7, share_base = 10, share_raw = ''7'', share_label = ''01''\<rparr>]\<rparr>
   \<and> \<not> distinct (map share_x
          [\<lparr>share_x = 1, share_y = 4, share_base = 10, share_raw = ''4'', share_label = ''1''\<rparr>,
           \<lparr>share_x = 1, share_y = 7, share_base = 10, share_raw = ''7'', share_label = ''01''\<rparr>])
   \<and> (2::int) \<le> 2
   \<and> (2::int) \<le> int (length
          [\<lparr>share_x = 1, share_y = 4, share_base = 10, share_raw = ''4'', share_label = ''1''\<rparr>,
           \<lparr>share_x = 1, share_y = 7, share_base = 10, share_raw = ''7'', share_label = ''01''\<rparr>])
   \<and> reconstruct
          [\<lparr>share_x = 1, share_y = 4, share_base = 10, share_raw = ''4'', share_label = ''1''\<rparr>,
           \<lparr>share_x = 1, share_y = 7, share_base = 10, share_raw = ''7'', share_label = ''01''\<rparr>] 2
      = Some (Inl ReconstructionFailed)
   \<and> main [(''1'', JEntry ''10'' ''4''), (''keys'', JKeys 2 2), (''01'', JEntry ''10'' ''7'')]
      = Some (Inl ReconstructionFailed)"
proof -
  have a: "distinct (map fst [(''1'', JEntry ''10'' ''4''), (''keys'', JKeys 2 2), (''01'', JEntry ''10'' ''7'')])"
    by simp
  have b: "parseInput [(''1'', JEntry ''10'' ''4''), (''keys'', JKeys 2 2), (''01'', JEntry ''10'' ''7'')]
      = Inr \<lparr>parsed_n = 2, parsed_k = 2, parsed_shares =
          [\<lparr>share_x = 1, share_y = 4, share_base = 10, share_raw = ''4'', share_label = ''1''\<rparr>,
           \<lparr>share_x = 1, share_y = 7, share_base = 10, share_raw = ''7'', share_label = ''01''\<rparr>]\<rparr>"
    by code_simp
  have c: "reconstruct
          [\<lparr>share_x = 1, share_y = 4, share_base = 10, share_raw = ''4'', share_label = ''1''\<rparr>,
           \<lparr>share_x = 1, share_y = 7, share_base = 10, share_raw = ''7'', share_label = ''01''\<rparr>] 2
      = Some (Inl ReconstructionFailed)"
    by code_simp
  have d: "main [(''1'', JEntry ''10'' ''4''), (''keys'', JKeys 2 2), (''01'', JEntry ''10'' ''7'')]
      = Some (Inl ReconstructionFailed)"
    by (simp add: main_def b c)
  from a b c d show ?thesis
    by simp
qed

text \<open>
  Claim C10, amended. The shares of the parser have pairwise distinct \<open>x\<close> when the keys of
  digits denote pairwise distinct integers. For shares with pairwise distinct \<open>x\<close> and
  \<open>2 \<le> k \<le>\<close> the number of shares, the generator yields a subset with distinct \<open>x\<close> and
  \<open>reconstruct\<close> returns a result: it does not fail with \<open>ReconstructionFailed\<close>.
\<close>

theorem C10_distinct_x_reconstructs:
  "(parseInput data = Inr p
      \<and> distinct (map BigInt_of_decimal (filter digits_only (map fst data)))
      \<longrightarrow> distinct (map share_x (parsed_shares p)))
   \<and> (distinct (map share_x shares) \<and> 2 \<le> k \<and> k \<le> int (length shares)
      \<longrightarrow> (\<exists>sub\<in>set (k_subseqs (nat k) shares). distinct (map share_x sub))
        \<and> combinations shares k = Some (k_subseqs (nat k) shares)
        \<and> (\<exists>r. reconstruct shares k = Some (Inr r))
        \<and> reconstruct shares k \<noteq> Some (Inl ReconstructionFailed))"
proof (intro conjI impI)
  assume "parseInput data = Inr p
      \<and> distinct (map BigInt_of_decimal (filter digits_only (map fst data)))"
  then show "distinct (map share_x (parsed_shares p))"
    using parseInput_distinct by blast
next
  assume a: "distinct (map share_x shares) \<and> 2 \<le> k \<and> k \<le> int (length shares)"
  then have le: "nat k \<le> length shares"
    by linarith
  have "take (nat k) shares \<in> set (k_subseqs (nat k) shares)"
    using le by (simp add: set_k_subseqs prefix_imp_subseq take_is_prefix)
  moreover have "distinct (map share_x (take (nat k) shares))"
    using a by (simp add: take_map [symmetric] del: take_map)
  ultimately show "\<exists>sub\<in>set (k_subseqs (nat k) shares). distinct (map share_x sub)"
    by blast
  show "combinations shares k = Some (k_subseqs (nat k) shares)"
    using a by (simp add: combinations_k_subseqs)
  from a reconstruct_distinct_succeeds show ex: "\<exists>r. reconstruct shares k = Some (Inr r)"
    by blast
  then show "reconstruct shares k \<noteq> Some (Inl ReconstructionFailed)"
    by auto
qed

theorem C10_distinct_x_reconstructs_witness:
  "parseInput [(''1'', JEntry ''10'' ''4''), (''2'', JEntry ''10'' ''7''),
        (''3'', JEntry ''16'' ''e''), (''keys'', JKeys 3 2)]
      = Inr \<lparr>parsed_n = 3, parsed_k = 2, parsed_shares =
          [\<lparr>share_x = 1, share_y = 4, share_base = 10, share_raw = ''4'', share_label = ''1''\<rparr>,
           \<lparr>share_x = 2, share_y = 7, share_base = 10, share_raw = ''7'', share_label = ''2''\<rparr>,
           \<lparr>share_x = 3, share_y = 14, share_base = 16, share_raw = ''e'', share_label = ''3''\<rparr>]\<rparr>
   \<and> distinct (map BigInt_of_decimal (filter digits_only (map fst
        [(''1'', JEntry ''10'' ''4''), (''2'', JEntry ''10'' ''7''),
         (''3'', JEntry ''16'' ''e''), (''keys'', JKeys 3 2)])))
   \<and> distinct (map share_x
          [\<lparr>share_x = 1, share_y = 4, share_base = 10, share_raw = ''4'', share_label = ''1''\<rparr>,
           \<lparr>share_x = 2, share_y = 7, share_base = 10, share_raw = ''7'', share_label = ''2''\<rparr>,
           \<lparr>share_x = 3, share_y = 14, share_base = 16, share_raw = ''e'', share_label = ''3''\<rparr>])
   \<and> (2::int) \<le> 2
   \<and> 2 \<le> int (length
          [\<lparr>share_x = 1, share_y = 4, share_base = 10, share_raw = ''4'', share_label = ''1''\<rparr>,
           \<lparr>share_x = 2, share_y = 7, share_base = 10, share_raw = ''7'', share_label = ''2''\<rparr>,
           \<lparr>share_x = 3, share_y = 14, share_base = 16, share_raw = ''e'', share_label = ''3''\<rparr>])
   \<and> (\<exists>r. reconstruct
          [\<lparr>share_x = 1, share_y = 4, share_base = 10, share_raw = ''4'', share_label = ''1''\<rparr>,
           \<lparr>share_x = 2, share_y = 7, share_base = 10, share_raw = ''7'', share_label = ''2''\<rparr>,
           \<lparr>share_x = 3, share_y = 14, share_base = 16, share_raw = ''e'', share_label = ''3''\<rparr>] 2
        = Some (Inr r))"
proof -
  define D where "D = [(''1'', JEntry ''10'' ''4''), (''2'', JEntry ''10'' ''7''),
        (''3'', JEntry ''16'' ''e''), (''keys'', JKeys 3 2)]"
  define S where "S =
          [\<lparr>share_x = 1, share_y = 4, share_base = 10, share_raw = ''4'', share_label = ''1''\<rparr>,
           \<lparr>share_x = 2, share_y = 7, share_base = 10, share_raw = ''7'', share_label = ''2''\<rparr>,
           \<lparr>share_x = 3, share_y = 14, share_base = 16, share_raw = ''e'', share_label = ''3''\<rparr>]"
  have a: "parseInput D = Inr \<lparr>parsed_n = 3, parsed_k = 2, parsed_shares = S\<rparr>"
    unfolding D_def S_def by code_simp
  have b: "distinct (map BigInt_of_decimal (filter digits_only (map fst D)))"
    unfolding D_def by code_simp
  have c: "(2::int) \<le> 2 \<and> 2 \<le> int (length S)"
    by (simp add: S_def)
  from a b C10_distinct_x_reconstructs [of D "\<lparr>parsed_n = 3, parsed_k = 2, parsed_shares = S\<rparr>" S 2]
  have d: "distinct (map share_x S)"
    by simp
  with c C10_distinct_x_reconstructs [of D "\<lparr>parsed_n = 3, parsed_k = 2, parsed_shares = S\<rparr>" S 2]
  have e: "\<exists>r. reconstruct S 2 = Some (Inr r)"
    by blast
  from a b c d e show ?thesis
    unfolding D_def S_def by blast
qed

section \<open>Tolerance of one corrupted share\<close>

text \<open>
  Claim C2. The shares of \<open>f(x) = 2x\<^sup>2 - 3x + 5\<close> at \<open>x = 1..4\<close> are \<open>4, 7, 14, 25\<close>. With the share at
  \<open>x = 4\<close> replaced by any \<open>y'\<close> other than \<open>f(4)\<close>, \<open>reconstruct\<close> with \<open>k = 3\<close> returns the fit count
  3, the fit vector that marks exactly the fourth share as bad, and the secret 5.
\<close>

theorem C2_corruption_tolerance:
  "poly_shares [5, - 3, 2] 4 = [point 1 4, point 2 7, point 3 14, point 4 25]
   \<and> (y' \<noteq> poly_eval [5, - 3, 2] 4 \<longrightarrow>
     reconstruct [point 1 4, point 2 7, point 3 14, point 4 y'] 3 =
       Some (Inr \<lparr>best_fitCount = 3,
         best_subset = Some [point 1 4, point 2 7, point 3 14],
         best_secretFrac = Some \<lparr>frac_n = 5, frac_d = 1\<rparr>,
         best_fits = Some [True, True, True, False]\<rparr>))"
proof (intro conjI impI)
  show "poly_shares [5, - 3, 2] 4 = [point 1 4, point 2 7, point 3 14, point 4 25]"
    by code_simp
next
  assume "y' \<noteq> poly_eval [5, - 3, 2] 4"
  moreover have "poly_eval [5, - 3, 2] 4 = 25"
    by code_simp
  ultimately have y: "y' \<noteq> 25"
    by simp
  define shares where "shares = [point 1 4, point 2 7, point 3 14, point 4 y']"
  define sub1 where "sub1 = [point 1 4, point 2 7, point 3 14]"
  define sub2 where "sub2 = [point 1 4, point 2 7, point 4 y']"
  define sub3 where "sub3 = [point 1 4, point 3 14, point 4 y']"
  define sub4 where "sub4 = [point 2 7, point 3 14, point 4 y']"
  have d1: "distinct (map share_x sub1)" and d2: "distinct (map share_x sub2)"
    and d3: "distinct (map share_x sub3)" and d4: "distinct (map share_x sub4)"
    by (simp_all add: sub1_def sub2_def sub3_def sub4_def share_x_point)
  have subs: "k_subseqs (nat 3) shares = [sub1, sub2, sub3, sub4]"
    by (simp add: shares_def sub1_def sub2_def sub3_def sub4_def numeral_3_eq_3)
  have comb: "combinations shares 3 = Some [sub1, sub2, sub3, sub4]"
    using combinations_k_subseqs [of 3 shares] subs by (simp add: shares_def)
  have m1: "map (on_poly sub1) shares = [True, True, True, False]"
    using y on_poly_member [OF d1] corrupted_123 [of y']
    by (simp add: shares_def sub1_def)
  have m2: "map (on_poly sub2) shares = [True, True, False, True]"
    using y on_poly_member [OF d2] corrupted_12_4 [of y']
    by (simp add: shares_def sub2_def)
  have m3: "map (on_poly sub3) shares = [True, False, True, True]"
    using y on_poly_member [OF d3] corrupted_13_4 [of y']
    by (simp add: shares_def sub3_def)
  have m4: "map (on_poly sub4) shares = [False, True, True, True]"
    using y on_poly_member [OF d4] corrupted_23_4 [of y']
    by (simp add: shares_def sub4_def)
  have c1: "length (filter (on_poly sub1) shares) = 3"
    and c2: "length (filter (on_poly sub2) shares) = 3"
    and c3: "length (filter (on_poly sub3) shares) = 3"
    and c4: "length (filter (on_poly sub4) shares) = 3"
    by (simp_all add: length_filter_map [of "on_poly _" shares] m1 m2 m3 m4)
  have len: "length shares = 4"
    by (simp add: shares_def)
  have "lagrangeAtZero [point 1 4, point 2 7, point 3 14] = Inr \<lparr>frac_n = 5, frac_d = 1\<rparr>"
    by code_simp
  then have secret: "frac_of (subset_poly sub1 0) = \<lparr>frac_n = 5, frac_d = 1\<rparr>"
    using d1 by (simp add: lagrangeAtZero_subset_poly sub1_def)
  define b1 where "b1 = \<lparr>best_fitCount = 3, best_subset = Some sub1,
      best_secretFrac = Some \<lparr>frac_n = 5, frac_d = 1\<rparr>,
      best_fits = Some [True, True, True, False]\<rparr>"
  have s4: "search shares [sub4] b1 = Inr b1"
    by (simp add: search_distinct [OF d4] c4 b1_def)
  have s3: "search shares [sub3, sub4] b1 = Inr b1"
    using s4 by (simp add: search_distinct [OF d3] c3 b1_def)
  have s2: "search shares [sub2, sub3, sub4] b1 = Inr b1"
    using s3 by (simp add: search_distinct [OF d2] c2 b1_def)
  have s1: "search shares [sub1, sub2, sub3, sub4]
        \<lparr>best_fitCount = - 1, best_subset = None, best_secretFrac = None, best_fits = None\<rparr>
      = Inr b1"
    using s2 by (simp add: search_distinct [OF d1] c1 m1 secret len b1_def)
  have "reconstruct shares 3 = Some (Inr b1)"
    by (simp add: reconstruct_def comb s1 len) (simp add: b1_def)
  then show "reconstruct [point 1 4, point 2 7, point 3 14, point 4 y'] 3 =
       Some (Inr \<lparr>best_fitCount = 3,
         best_subset = Some [point 1 4, point 2 7, point 3 14],
         best_secretFrac = Some \<lparr>frac_n = 5, frac_d = 1\<rparr>,
         best_fits = Some [True, True, True, False]\<rparr>)"
    by (simp add: shares_def b1_def sub1_def)
qed

theorem C2_corruption_tolerance_witness:
  "(26::int) \<noteq> poly_eval [5, - 3, 2] 4
   \<and> reconstruct [point 1 4, point 2 7, point 3 14, point 4 26] 3 =
       Some (Inr \<lparr>best_fitCount = 3,
         best_subset = Some [point 1 4, point 2 7, point 3 14],
         best_secretFrac = Some \<lparr>frac_n = 5, frac_d = 1\<rparr>,
         best_fits = Some [True, True, True, False]\<rparr>)"
proof -
  have a: "(26::int) \<noteq> poly_eval [5, - 3, 2] 4"
    by code_simp
  from a C2_corruption_tolerance [of 26] show ?thesis
    by blast
qed

section \<open>The failure scenario\<close>

lemma reconstruct_result_max:
  assumes "reconstruct shares k = Some (Inr r)"
  shows "\<exists>sub\<in>set (k_subseqs (nat k) shares). explained_by shares sub r
    \<and> (\<forall>s\<in>set (k_subseqs (nat k) shares). distinct (map share_x s) \<longrightarrow>
          int (length (filter (on_poly s) shares)) \<le> best_fitCount r)"
proof -
  have k: "2 \<le> k" "k \<le> int (length shares)"
    using assms reconstruct_threshold [of k shares]
    by (cases "k < 2 \<or> k > int (length shares)"; auto)+
  from reconstruct_cases [OF k] assms show ?thesis
    by auto
qed

lemma reconstruct_failed_iff:
  assumes "2 \<le> k" "k \<le> int (length shares)"
  shows "reconstruct shares k = Some (Inl ReconstructionFailed)
    \<longleftrightarrow> (\<forall>sub. subseq sub shares \<and> length sub = nat k \<longrightarrow> \<not> distinct (map share_x sub))"
proof
  assume f: "reconstruct shares k = Some (Inl ReconstructionFailed)"
  with reconstruct_cases [OF assms]
  have "\<forall>sub\<in>set (k_subseqs (nat k) shares). \<not> distinct (map share_x sub)"
    by auto
  then show "\<forall>sub. subseq sub shares \<and> length sub = nat k \<longrightarrow> \<not> distinct (map share_x sub)"
    by (simp add: set_k_subseqs)
next
  assume a: "\<forall>sub. subseq sub shares \<and> length sub = nat k \<longrightarrow> \<not> distinct (map share_x sub)"
  have "\<not> explained_by shares sub r" if "sub \<in> set (k_subseqs (nat k) shares)" for sub r
    using that a by (auto simp: set_k_subseqs explained_by_def)
  with reconstruct_cases [OF assms] show "reconstruct shares k = Some (Inl ReconstructionFailed)"
    by blast
qed

text \<open>
  Claim C3 says that on a share set with fewer than \<open>k\<close> mutually consistent shares
  \<open>reconstruct\<close> fails with \<open>ReconstructionFailed\<close> or returns a fit count below \<open>k\<close>. The scenario of
  the specification, \<open>n = 5\<close> and \<open>k = 3\<close> with unrelated \<open>y\<close>: the shares \<open>(1,3)\<close>, \<open>(2,1)\<close>, \<open>(3,4)\<close>,
  \<open>(4,1)\<close>, \<open>(5,5)\<close>. The check of each of the ten subsets finds its own three shares and no
  other on its polynomial, so no four of the shares agree. \<open>reconstruct\<close> does not fail: it
  returns the first subset with the secret 10 and the fit count \<open>3 = k\<close>, which is not below
  \<open>k\<close>.
\<close>

theorem C3_unrelated_shares_counterexample:
  "distinct (map share_x [point 1 3, point 2 1, point 3 4, point 4 1, point 5 5])
   \<and> verify_loop [point 1 3, point 2 1, point 3 4, point 4 1, point 5 5]
        [point 1 3, point 2 1, point 3 4] 0 [False, False, False, False, False] 0
       = Inr ([True, True, True, False, False], 3)
   \<and> verify_loop [point 1 3, point 2 1, point 3 4, point 4 1, point 5 5]
        [point 1 3, point 2 1, point 4 1] 0 [False, False, False, False, False] 0
       = Inr ([True, True, False, True, False], 3)
   \<and> verify_loop [point 1 3, point 2 1, point 3 4, point 4 1, point 5 5]
        [point 1 3, point 2 1, point 5 5] 0 [False, False, False, False, False] 0
       = Inr ([True, True, False, False, True], 3)
   \<and> verify_loop [point 1 3, point 2 1, point 3 4, point 4 1, point 5 5]
        [point 1 3, point 3 4, point 4 1] 0 [False, False, False, False, False] 0
       = Inr ([True, False, True, True, False], 3)
   \<and> verify_loop [point 1 3, point 2 1, point 3 4, point 4 1, point 5 5]
        [point 1 3, point 3 4, point 5 5] 0 [False, False, False, False, False] 0
       = Inr ([True, False, True, False, True], 3)
   \<and> verify_loop [point 1 3, point 2 1, point 3 4, point 4 1, point 5 5]
        [point 1 3, point 4 1, point 5 5] 0 [False, False, False, False, False] 0
       = Inr ([True, False, False, True, True], 3)
   \<and> verify_loop [point 1 3, point 2 1, point 3 4, point 4 1, point 5 5]
        [point 2 1, point 3 4, point 4 1] 0 [False, False, False, False, False] 0
       = Inr ([False, True, True, True, False], 3)
   \<and> verify_loop [point 1 3, point 2 1, point 3 4, point 4 1, point 5 5]
        [point 2 1, point 3 4, point 5 5] 0 [False, False, False, False, False] 0
       = Inr ([False, True, True, False, True], 3)
   \<and> verify_loop [point 1 3, point 2 1, point 3 4, point 4 1, point 5 5]
        [point 2 1, point 4 1, point 5 5] 0 [False, False, False, False, False] 0
       = Inr ([False, True, False, True, True], 3)
   \<and> verify_loop [point 1 3, point 2 1, point 3 4, point 4 1, point 5 5]
        [point 3 4, point 4 1, point 5 5] 0 [False, False, False, False, False] 0
       = Inr ([False, False, True, True, True], 3)
   \<and> reconstruct [point 1 3, point 2 1, point 3 4, point 4 1, point 5 5] 3 =
       Some (Inr \<lparr>best_fitCount = 3,
         best_subset = Some [point 1 3, point 2 1, point 3 4],
         best_secretFrac = Some \<lparr>frac_n = 10, frac_d = 1\<rparr>,
         best_fits = Some [True, True, True, False, False]\<rparr>)
   \<and> \<not> best_fitCount \<lparr>best_fitCount = 3,
         best_subset = Some [point 1 3, point 2 1, point 3 4],
         best_secretFrac = Some \<lparr>frac_n = 10, frac_d = 1\<rparr>,
         best_fits = Some [True, True, True, False, False]\<rparr> < 3"
  by code_simp


text \<open>
  Claim C3, amended. For every share set: with \<open>k < 2\<close> or \<open>k\<close> above the number of shares
  \<open>reconstruct\<close> fails with \<open>InvalidThreshold\<close>; otherwise it fails with \<open>ReconstructionFailed\<close>
  exactly when no \<open>k\<close> of the shares have pairwise distinct \<open>x\<close>, and else it returns a result.
  The fit count of a result is never below \<open>k\<close>. It is the exact number of the supplied
  shares on the polynomial of the winning subset, the fit vector marks these shares, the
  secret is the value of that polynomial at 0, and no \<open>k\<close> shares with distinct \<open>x\<close> have
  more of the shares on their polynomial.
\<close>

theorem C3_failure_scenario:
  "(k < 2 \<or> int (length shares) < k \<longrightarrow> reconstruct shares k = Some (Inl InvalidThreshold))
   \<and> (2 \<le> k \<and> k \<le> int (length shares) \<longrightarrow>
        (reconstruct shares k = Some (Inl ReconstructionFailed)
           \<longleftrightarrow> (\<forall>sub. subseq sub shares \<and> length sub = nat k
                  \<longrightarrow> \<not> distinct (map share_x sub)))
        \<and> (reconstruct shares k = Some (Inl ReconstructionFailed)
             \<or> (\<exists>r'. reconstruct shares k = Some (Inr r'))))
   \<and> (reconstruct shares k = Some (Inr r) \<longrightarrow>
        (\<exists>sub. best_subset r = Some sub
          \<and> subseq sub shares \<and> length sub = nat k \<and> distinct (map share_x sub)
          \<and> best_secretFrac r = Some (frac_of (subset_poly sub 0))
          \<and> best_fits r = Some (map (on_poly sub) shares)
          \<and> best_fitCount r = int (length (filter (on_poly sub) shares))
          \<and> k \<le> best_fitCount r
          \<and> (\<forall>s. subseq s shares \<and> length s = nat k \<and> distinct (map share_x s)
                \<longrightarrow> int (length (filter (on_poly s) shares)) \<le> best_fitCount r)))"
proof (intro conjI impI)
  assume "k < 2 \<or> int (length shares) < k"
  then show "reconstruct shares k = Some (Inl InvalidThreshold)"
    by (simp add: reconstruct_threshold)
next
  assume "2 \<le> k \<and> k \<le> int (length shares)"
  then show "reconstruct shares k = Some (Inl ReconstructionFailed)
      \<longleftrightarrow> (\<forall>sub. subseq sub shares \<and> length sub = nat k
                  \<longrightarrow> \<not> distinct (map share_x sub))"
    by (intro reconstruct_failed_iff) simp_all
next
  assume "2 \<le> k \<and> k \<le> int (length shares)"
  then have "2 \<le> k" "k \<le> int (length shares)"
    by simp_all
  from reconstruct_cases [OF this]
  show "reconstruct shares k = Some (Inl ReconstructionFailed)
      \<or> (\<exists>r'. reconstruct shares k = Some (Inr r'))"
    by blast
next
  assume r: "reconstruct shares k = Some (Inr r)"
  from reconstruct_result_max [OF r] obtain sub where
    sub: "sub \<in> set (k_subseqs (nat k) shares)" and ex: "explained_by shares sub r"
    and mx: "\<forall>s\<in>set (k_subseqs (nat k) shares). distinct (map share_x s) \<longrightarrow>
          int (length (filter (on_poly s) shares)) \<le> best_fitCount r"
    by blast
  from sub have ss: "subseq sub shares" "length sub = nat k"
    by (simp_all add: set_k_subseqs)
  from mx have mx': "\<forall>s. subseq s shares \<and> length s = nat k \<and> distinct (map share_x s)
                \<longrightarrow> int (length (filter (on_poly s) shares)) \<le> best_fitCount r"
    by (simp add: set_k_subseqs)
  from ex ss mx' fitCount_ge_threshold [OF r]
  show "\<exists>sub. best_subset r = Some sub
          \<and> subseq sub shares \<and> length sub = nat k \<and> distinct (map share_x sub)
          \<and> best_secretFrac r = Some (frac_of (subset_poly sub 0))
          \<and> best_fits r = Some (map (on_poly sub) shares)
          \<and> best_fitCount r = int (length (filter (on_poly sub) shares))
          \<and> k \<le> best_fitCount r
          \<and> (\<forall>s. subseq s shares \<and> length s = nat k \<and> distinct (map share_x s)
                \<longrightarrow> int (length (filter (on_poly s) shares)) \<le> best_fitCount r)"
    unfolding explained_by_def by blast
qed

theorem C3_failure_scenario_witness:
  "((2::int) < 2 \<or> int (length [point 1 4]) < 2)
   \<and> reconstruct [point 1 4] 2 = Some (Inl InvalidThreshold)
   \<and> ((2::int) \<le> 2 \<and> 2 \<le> int (length [point 1 4, point 1 7]))
   \<and> \<not> distinct (map share_x [point 1 4, point 1 7])
   \<and> reconstruct [point 1 4, point 1 7] 2 = Some (Inl ReconstructionFailed)
   \<and> ((2::int) \<le> 3 \<and> 3 \<le> int (length [point 1 3, point 2 1, point 3 4, point 4 1, point 5 5]))
   \<and> reconstruct [point 1 3, point 2 1, point 3 4, point 4 1, point 5 5] 3 =
       Some (Inr \<lparr>best_fitCount = 3,
         best_subset = Some [point 1 3, point 2 1, point 3 4],
         best_secretFrac = Some \<lparr>frac_n = 10, frac_d = 1\<rparr>,
         best_fits = Some [True, True, True, False, False]\<rparr>)
   \<and> reconstruct [point 1 3, point 2 1, point 3 4, point 4 1, point 5 5] 3
       \<noteq> Some (Inl ReconstructionFailed)
   \<and> (\<exists>sub. subseq sub [point 1 3, point 2 1, point 3 4, point 4 1, point 5 5]
         \<and> length sub = nat 3 \<and> distinct (map share_x sub))
   \<and> (\<exists>sub. Some [point 1 3, point 2 1, point 3 4] = Some sub
         \<and> Some [True, True, True, False, False]
             = Some (map (on_poly sub) [point 1 3, point 2 1, point 3 4, point 4 1, point 5 5])
         \<and> (3::int) = int (length (filter (on_poly sub)
               [point 1 3, point 2 1, point 3 4, point 4 1, point 5 5])))"
proof -
  define S where "S = [point 1 3, point 2 1, point 3 4, point 4 1, point 5 5]"
  define R where "R = \<lparr>best_fitCount = 3,
         best_subset = Some [point 1 3, point 2 1, point 3 4],
         best_secretFrac = Some \<lparr>frac_n = 10, frac_d = 1\<rparr>,
         best_fits = Some [True, True, True, False, False]\<rparr>"
  have a: "(2::int) < 2 \<or> int (length [point 1 4]) < 2"
    by simp
  from a C3_failure_scenario [of 2 "[point 1 4]"]
  have b: "reconstruct [point 1 4] 2 = Some (Inl InvalidThreshold)"
    by blast
  have c: "(2::int) \<le> 2 \<and> 2 \<le> int (length [point 1 4, point 1 7])"
    by simp
  have d: "\<forall>sub. subseq sub [point 1 4, point 1 7] \<and> length sub = nat 2
          \<longrightarrow> \<not> distinct (map share_x sub)"
  proof (intro allI impI)
    fix sub
    assume "subseq sub [point 1 4, point 1 7] \<and> length sub = nat 2"
    then have "sub = [point 1 4, point 1 7]"
      by (intro subseq_same_length) simp_all
    then show "\<not> distinct (map share_x sub)"
      by (simp add: share_x_point)
  qed
  from c d C3_failure_scenario [of 2 "[point 1 4, point 1 7]"]
  have e: "reconstruct [point 1 4, point 1 7] 2 = Some (Inl ReconstructionFailed)"
    by blast
  have f: "(2::int) \<le> 3 \<and> 3 \<le> int (length S)"
    by (simp add: S_def)
  have g: "reconstruct S 3 = Some (Inr R)"
    unfolding S_def R_def by code_simp
  then have h: "reconstruct S 3 \<noteq> Some (Inl ReconstructionFailed)"
    by simp
  from f h C3_failure_scenario [of 3 S]
  have i: "\<exists>sub. subseq sub S \<and> length sub = nat 3 \<and> distinct (map share_x sub)"
    by blast
  from C3_failure_scenario [of 3 S R, THEN conjunct2, THEN conjunct2, rule_format, OF g]
  have j: "\<exists>sub. Some [point 1 3, point 2 1, point 3 4] = Some sub
         \<and> Some [True, True, True, False, False] = Some (map (on_poly sub) S)
         \<and> (3::int) = int (length (filter (on_poly sub) S))"
    by (auto simp: R_def)
  have k: "\<not> distinct (map share_x [point 1 4, point 1 7])"
    by (simp add: share_x_point)
  from a b c e f g h i j k show ?thesis
    unfolding S_def R_def by blast
qed

section \<open>The points of a subset lie on its polynomial\<close>

text \<open>
  Claim C9. For a subset with pairwise distinct \<open>x\<close> and each of its members, \<open>lagrangeEval\<close>
  at the member's \<open>x\<close> returns the integer fraction of the member's \<open>y\<close>. Hence the fit
  count of every result of \<open>reconstruct\<close> is at least \<open>k\<close>.
\<close>

theorem C9_basis_points_fit:
  "(distinct (map share_x sub) \<and> i < length sub \<longrightarrow>
      lagrangeEval sub (share_x (sub ! i)) = Inr \<lparr>frac_n = share_y (sub ! i), frac_d = 1\<rparr>
      \<and> Fraction_isInteger \<lparr>frac_n = share_y (sub ! i), frac_d = 1\<rparr>)
   \<and> (reconstruct shares k = Some (Inr r) \<longrightarrow> k \<le> best_fitCount r)"
proof (intro conjI impI)
  assume a: "distinct (map share_x sub) \<and> i < length sub"
  then have "sub ! i \<in> set sub"
    by simp
  with a have "subset_poly sub (of_int (share_x (sub ! i))) = of_int (share_y (sub ! i))"
    by (simp add: subset_poly_node)
  with a show "lagrangeEval sub (share_x (sub ! i)) = Inr \<lparr>frac_n = share_y (sub ! i), frac_d = 1\<rparr>"
    by (simp add: lagrangeEval_subset_poly frac_of_int)
  show "Fraction_isInteger \<lparr>frac_n = share_y (sub ! i), frac_d = 1\<rparr>"
    by (simp add: Fraction_isInteger_def)
next
  assume "reconstruct shares k = Some (Inr r)"
  then show "k \<le> best_fitCount r"
    by (rule fitCount_ge_threshold)
qed

theorem C9_basis_points_fit_witness:
  "distinct (map share_x [point 1 4, point 2 7, point 3 14])
   \<and> (1::nat) < length [point 1 4, point 2 7, point 3 14]
   \<and> lagrangeEval [point 1 4, point 2 7, point 3 14]
        (share_x ([point 1 4, point 2 7, point 3 14] ! 1))
      = Inr \<lparr>frac_n = share_y ([point 1 4, point 2 7, point 3 14] ! 1), frac_d = 1\<rparr>
   \<and> reconstruct [point 1 4, point 2 7, point 3 14, point 4 0] 3 =
       Some (Inr \<lparr>best_fitCount = 3, best_subset = Some [point 1 4, point 2 7, point 3 14],
         best_secretFrac = Some \<lparr>frac_n = 5, frac_d = 1\<rparr>,
         best_fits = Some [True, True, True, False]\<rparr>)
   \<and> 3 \<le> best_fitCount \<lparr>best_fitCount = 3, best_subset = Some [point 1 4, point 2 7, point 3 14],
         best_secretFrac = Some \<lparr>frac_n = 5, frac_d = 1\<rparr>,
         best_fits = Some [True, True, True, False]\<rparr>"
proof -
  have a: "distinct (map share_x [point 1 4, point 2 7, point 3 14])
      \<and> (1::nat) < length [point 1 4, point 2 7, point 3 14]"
    by (simp add: point_def)
  have b: "reconstruct [point 1 4, point 2 7, point 3 14, point 4 0] 3 =
       Some (Inr \<lparr>best_fitCount = 3, best_subset = Some [point 1 4, point 2 7, point 3 14],
         best_secretFrac = Some \<lparr>frac_n = 5, frac_d = 1\<rparr>,
         best_fits = Some [True, True, True, False]\<rparr>)"
    by code_simp
  from a b
    C9_basis_points_fit [of "[point 1 4, point 2 7, point 3 14]" 1
      "[point 1 4, point 2 7, point 3 14, point 4 0]" 3
      "\<lparr>best_fitCount = 3, best_subset = Some [point 1 4, point 2 7, point 3 14],
         best_secretFrac = Some \<lparr>frac_n = 5, frac_d = 1\<rparr>,
         best_fits = Some [True, True, True, False]\<rparr>"]
  show ?thesis
    by blast
qed

end
